theory Spec2Isabelle
  imports Main "HOL-Library.Multiset" "HOL-Library.List_Lexorder" "HOL-Library.Char_ord"
begin

section \<open>Values\<close>

text \<open>
  The handler works on the values that \<open>JSON.parse\<close> and the query parser produce.
  A record is a JSON object, kept as the list of its own fields in enumeration order,
  each key once. \<open>Undefined\<close> is what a read of an absent field yields; it also
  stands for a query parameter that is absent.

  The numbers that records hold are the integers (the integer-valued numbers that a
  double holds exactly and prints in digits); the number that a string converts to may
  be any decimal fraction. The rounding of doubles is not modelled.
  Strings are lists of characters with ASCII case conversion and ASCII white space.
  Records and the store are ordinary objects: a read under a computed key that the
  object does not hold itself finds the member of \<open>Object.prototype\<close> of that name,
  when there is one.
\<close>

datatype jsval =
    Undefined
  | Null
  | Bool bool
  | Num int
  | Str string
  | Arr "jsval list"
  | Obj "(string \<times> jsval) list"

type_synonym jsobject = "(string \<times> jsval) list"

text \<open>
  The read \<open>x.id\<close>, and any read of a field the record holds itself: the value of the
  field, else undefined (\<open>id\<close> names no inherited member).
\<close>

definition get_field :: "jsobject \<Rightarrow> string \<Rightarrow> jsval" where
  "get_field item k = (case map_of item k of None \<Rightarrow> Undefined | Some v \<Rightarrow> v)"

text \<open>\<open>"id" in body\<close>.\<close>

definition has_field :: "jsobject \<Rightarrow> string \<Rightarrow> bool" where
  "has_field item k = (k \<in> fst ` set item)"

text \<open>
  The member names of \<open>Object.prototype\<close>. All are functions but \<open>__proto__\<close>, which
  reads as the prototype itself. Converted to a string, a function gives its source
  text (as V8 prints a native function) and the prototype gives \<open>[object Object]\<close>.
\<close>

definition object_prototype_keys :: "string list" where
  "object_prototype_keys =
     [''constructor'', ''__defineGetter__'', ''__defineSetter__'', ''hasOwnProperty'',
      ''__lookupGetter__'', ''__lookupSetter__'', ''isPrototypeOf'',
      ''propertyIsEnumerable'', ''toString'', ''valueOf'', ''__proto__'',
      ''toLocaleString'']"

definition member_text :: "string \<Rightarrow> string" where
  "member_text m =
     (if m = ''__proto__'' then ''[object Object]''
      else ''function '' @ (if m = ''constructor'' then ''Object'' else m) @ ''() { [native code] }'')"

text \<open>
  The read \<open>item[k]\<close> under a computed key: the value of the own field, else the
  inherited member of that name, else undefined.
\<close>

datatype reading = Value jsval | Member string

definition read_prop :: "jsobject \<Rightarrow> string \<Rightarrow> reading" where
  "read_prop item k =
     (case map_of item k of
        Some v \<Rightarrow> Value v
      | None \<Rightarrow> if k \<in> set object_prototype_keys then Member k else Value Undefined)"

text \<open>
  Assignment \<open>o[k] = v\<close>: an existing field keeps its place, a new one goes last
  (keys that are array indices, which are enumerated first, are not treated apart).
\<close>

fun set_field :: "jsobject \<Rightarrow> string \<Rightarrow> jsval \<Rightarrow> jsobject" where
  "set_field [] k v = [(k, v)]"
| "set_field ((k', v') # fs) k v =
     (if k' = k then (k, v) # fs else (k', v') # set_field fs k v)"

text \<open>Object spread \<open>{...a, ...b}\<close>: the fields of \<open>b\<close> are assigned over \<open>a\<close> in order.\<close>

definition spread :: "jsobject \<Rightarrow> jsobject \<Rightarrow> jsobject" where
  "spread a b = foldl (\<lambda>acc (k, v). set_field acc k v) a b"

text \<open>Truthiness, as tested by \<open>!x\<close>, \<open>x || y\<close> and \<open>if (x)\<close>.\<close>

fun truthy :: "jsval \<Rightarrow> bool" where
  "truthy Undefined = False"
| "truthy Null = False"
| "truthy (Bool b) = b"
| "truthy (Num n) = (n \<noteq> 0)"
| "truthy (Str s) = (s \<noteq> [])"
| "truthy (Arr _) = True"
| "truthy (Obj _) = True"

subsection \<open>Strings\<close>

definition digit_char :: "nat \<Rightarrow> char" where
  "digit_char d = char_of (48 + d)"

fun nat_digits :: "nat \<Rightarrow> string" where
  "nat_digits n = (if n < 10 then [digit_char n] else nat_digits (n div 10) @ [digit_char (n mod 10)])"

declare nat_digits.simps [simp del]

definition int_string :: "int \<Rightarrow> string" where
  "int_string n = (if n < 0 then CHR ''-'' # nat_digits (nat (- n)) else nat_digits (nat n))"

fun join_comma :: "string list \<Rightarrow> string" where
  "join_comma [] = []"
| "join_comma [s] = s"
| "join_comma (s # t # ss) = s @ CHR '','' # join_comma (t # ss)"

text \<open>
  \<open>String(v)\<close>. An array joins its elements with commas, null and undefined elements
  giving the empty string; a plain object gives \<open>[object Object]\<close>.
\<close>

fun to_string :: "jsval \<Rightarrow> string" where
  "to_string Undefined = ''undefined''"
| "to_string Null = ''null''"
| "to_string (Bool b) = (if b then ''true'' else ''false'')"
| "to_string (Num n) = int_string n"
| "to_string (Str s) = s"
| "to_string (Arr xs) =
     join_comma (map (\<lambda>x. if x = Undefined \<or> x = Null then [] else to_string x) xs)"
| "to_string (Obj _) = ''[object Object]''"

definition lower_char :: "char \<Rightarrow> char" where
  "lower_char c =
     (let n = (of_char c :: nat) in if 65 \<le> n \<and> n \<le> 90 then char_of (n + 32) else c)"

text \<open>\<open>s.toLowerCase()\<close>.\<close>

definition toLowerCase :: "string \<Rightarrow> string" where
  "toLowerCase s = map lower_char s"

definition is_space :: "char \<Rightarrow> bool" where
  "is_space c = (let n = (of_char c :: nat) in n = 32 \<or> (9 \<le> n \<and> n \<le> 13))"

definition is_digit :: "char \<Rightarrow> bool" where
  "is_digit c = (let n = (of_char c :: nat) in 48 \<le> n \<and> n \<le> 57)"

definition digits_value :: "string \<Rightarrow> int" where
  "digits_value ds = foldl (\<lambda>acc c. 10 * acc + (int (of_char c) - 48)) 0 ds"

text \<open>
  \<open>parseInt(s, 10)\<close>: leading white space is skipped, a sign is read, then the longest
  run of decimal digits; anything after it is ignored. No digit at all gives NaN, here
  \<open>None\<close>.
\<close>

definition parseInt :: "string \<Rightarrow> int option" where
  "parseInt s =
     (let t = dropWhile is_space s;
          neg = (t \<noteq> [] \<and> hd t = CHR ''-'');
          u = (if t \<noteq> [] \<and> (hd t = CHR ''-'' \<or> hd t = CHR ''+'') then tl t else t);
          ds = takeWhile is_digit u
      in if ds = [] then None
         else Some (if neg then - digits_value ds else digits_value ds))"

text \<open>
  A digit string whose value rounds to no finite double parses to \<open>Infinity\<close>, which
  \<open>Number.isFinite\<close> rejects like NaN.
\<close>

definition is_finite :: "int \<Rightarrow> bool" where
  "is_finite n = (\<bar>n\<bar> < 2 ^ 1024 - 2 ^ 970)"

definition toInt :: "jsval \<Rightarrow> int \<Rightarrow> int" where
  "toInt v def =
     (case parseInt (to_string v) of
        None \<Rightarrow> def
      | Some n \<Rightarrow> if is_finite n then n else def)"

subsection \<open>Comparison operators\<close>

fun typeof :: "jsval \<Rightarrow> string" where
  "typeof Undefined = ''undefined''"
| "typeof Null = ''object''"
| "typeof (Bool _) = ''boolean''"
| "typeof (Num _) = ''number''"
| "typeof (Str _) = ''string''"
| "typeof (Arr _) = ''object''"
| "typeof (Obj _) = ''object''"

definition trim :: "string \<Rightarrow> string" where
  "trim s = rev (dropWhile is_space (rev (dropWhile is_space s)))"

text \<open>
  Numbers met in comparisons: NaN, the infinities, and the decimal fractions
  \<open>n / 10 ^ d\<close>, which every numeric literal denotes. (The rounding of a literal to
  the nearest double, and its overflow to infinity, are not modelled.)
\<close>

datatype jsnum = NaN | Dec int nat | Infinite bool

fun num_eq :: "jsnum \<Rightarrow> jsnum \<Rightarrow> bool" where
  "num_eq (Dec a d) (Dec b e) = (a * 10 ^ e = b * 10 ^ d)"
| "num_eq (Infinite s) (Infinite t) = (s = t)"
| "num_eq _ _ = False"

fun num_less :: "jsnum \<Rightarrow> jsnum \<Rightarrow> bool" where
  "num_less (Dec a d) (Dec b e) = (a * 10 ^ e < b * 10 ^ d)"
| "num_less (Infinite s) (Infinite t) = (\<not> s \<and> t)"
| "num_less (Infinite s) (Dec _ _) = (\<not> s)"
| "num_less (Dec _ _) (Infinite t) = t"
| "num_less _ _ = False"

fun negate :: "jsnum \<Rightarrow> jsnum" where
  "negate (Dec n d) = Dec (- n) d"
| "negate (Infinite s) = Infinite (\<not> s)"
| "negate NaN = NaN"

definition radix_digit :: "char \<Rightarrow> nat" where
  "radix_digit c =
     (let n = (of_char c :: nat) in
      if 48 \<le> n \<and> n \<le> 57 then n - 48
      else if 97 \<le> n \<and> n \<le> 102 then n - 87
      else if 65 \<le> n \<and> n \<le> 70 then n - 55
      else 16)"

text \<open>The literals \<open>0x..\<close>, \<open>0o..\<close> and \<open>0b..\<close>, in either case, which take no sign.\<close>

definition non_decimal_literal :: "string \<Rightarrow> int option" where
  "non_decimal_literal t =
     (case t of
        c0 # c1 # ds \<Rightarrow>
          (let radix = (if c1 = CHR ''x'' \<or> c1 = CHR ''X'' then 16
                        else if c1 = CHR ''o'' \<or> c1 = CHR ''O'' then 8
                        else if c1 = CHR ''b'' \<or> c1 = CHR ''B'' then 2
                        else (0::nat))
           in if c0 = CHR ''0'' \<and> radix \<noteq> 0 \<and> ds \<noteq> [] \<and> list_all (\<lambda>c. radix_digit c < radix) ds
              then Some (foldl (\<lambda>acc c. int radix * acc + int (radix_digit c)) 0 ds)
              else None)
      | _ \<Rightarrow> None)"

text \<open>The exponent part \<open>e\<close>, \<open>e+\<close> or \<open>e-\<close> with digits; none is the exponent 0.\<close>

definition exponent_part :: "string \<Rightarrow> int option" where
  "exponent_part r =
     (case r of
        [] \<Rightarrow> Some 0
      | c # rest \<Rightarrow>
          (let neg = (rest \<noteq> [] \<and> hd rest = CHR ''-'');
               ds = (if rest \<noteq> [] \<and> (hd rest = CHR ''-'' \<or> hd rest = CHR ''+'') then tl rest else rest)
           in if (c = CHR ''e'' \<or> c = CHR ''E'') \<and> ds \<noteq> [] \<and> list_all is_digit ds
              then Some (if neg then - digits_value ds else digits_value ds)
              else None))"

text \<open>
  An unsigned decimal literal: \<open>Infinity\<close>, or digits with an optional fraction and
  an optional exponent, with a digit before or after the point.
\<close>

definition unsigned_decimal :: "string \<Rightarrow> jsnum" where
  "unsigned_decimal u =
     (if u = ''Infinity'' then Infinite True
      else
        (let ip = takeWhile is_digit u;
             r1 = dropWhile is_digit u;
             dot = (r1 \<noteq> [] \<and> hd r1 = CHR ''.'');
             fp = (if dot then takeWhile is_digit (tl r1) else []);
             r2 = (if dot then dropWhile is_digit (tl r1) else r1)
         in if ip = [] \<and> fp = [] then NaN
            else
              (case exponent_part r2 of
                 None \<Rightarrow> NaN
               | Some e \<Rightarrow>
                   (let m = digits_value (ip @ fp); k = e - int (length fp)
                    in if 0 \<le> k then Dec (m * 10 ^ nat k) 0 else Dec m (nat (- k))))))"

text \<open>
  The number a string converts to: white space is trimmed; the empty string is 0; then
  comes a literal with a radix prefix or a signed decimal literal; anything else is NaN.
\<close>

definition string_to_number :: "string \<Rightarrow> jsnum" where
  "string_to_number s =
     (let t = trim s in
      if t = [] then Dec 0 0
      else
        (case non_decimal_literal t of
           Some n \<Rightarrow> Dec n 0
         | None \<Rightarrow>
             if hd t = CHR ''-'' then negate (unsigned_decimal (tl t))
             else if hd t = CHR ''+'' then unsigned_decimal (tl t)
             else unsigned_decimal t))"

text \<open>Conversion of an array or object to a primitive goes through \<open>toString\<close>.\<close>

fun to_primitive :: "jsval \<Rightarrow> jsval" where
  "to_primitive (Arr xs) = Str (to_string (Arr xs))"
| "to_primitive (Obj fs) = Str (to_string (Obj fs))"
| "to_primitive v = v"

fun to_number :: "jsval \<Rightarrow> jsnum" where
  "to_number Undefined = NaN"
| "to_number Null = Dec 0 0"
| "to_number (Bool b) = Dec (if b then 1 else 0) 0"
| "to_number (Num n) = Dec n 0"
| "to_number (Str s) = string_to_number s"
| "to_number (Arr xs) = string_to_number (to_string (Arr xs))"
| "to_number (Obj fs) = string_to_number (to_string (Obj fs))"

definition is_nullish :: "jsval \<Rightarrow> bool" where
  "is_nullish v = (v = Undefined \<or> v = Null)"

fun is_object :: "jsval \<Rightarrow> bool" where
  "is_object (Arr _) = True"
| "is_object (Obj _) = True"
| "is_object _ = False"

text \<open>
  Loose equality \<open>x == y\<close>. Null and undefined equal each other and nothing else; a
  boolean is compared as its number, an array or object as its primitive; a number
  equals a string that converts to it. Two arrays or objects are equal only as the same
  reference, and the two operands never are: one comes from the store, the other from
  the request.
\<close>

fun loose_eq_primitive :: "jsval \<Rightarrow> jsval \<Rightarrow> bool" where
  "loose_eq_primitive (Num a) (Num b) = (a = b)"
| "loose_eq_primitive (Str s) (Str t) = (s = t)"
| "loose_eq_primitive (Num a) (Str t) = num_eq (Dec a 0) (string_to_number t)"
| "loose_eq_primitive (Str s) (Num b) = num_eq (string_to_number s) (Dec b 0)"
| "loose_eq_primitive _ _ = False"

fun coerce :: "jsval \<Rightarrow> jsval" where
  "coerce (Bool b) = Num (if b then 1 else 0)"
| "coerce v = to_primitive v"

definition loose_eq :: "jsval \<Rightarrow> jsval \<Rightarrow> bool" where
  "loose_eq x y =
     (if is_nullish x \<or> is_nullish y then is_nullish x \<and> is_nullish y
      else if is_object x \<and> is_object y then False
      else loose_eq_primitive (coerce x) (coerce y))"

text \<open>
  \<open>x == y\<close> where \<open>x\<close> is an inherited member: an object that is neither null nor
  the other operand, compared with a primitive as its text.
\<close>

definition member_loose_eq :: "string \<Rightarrow> jsval \<Rightarrow> bool" where
  "member_loose_eq m y =
     (if is_nullish y \<or> is_object y then False
      else loose_eq_primitive (Str (member_text m)) (coerce y))"

text \<open>
  Strict equality \<open>x === y\<close> of field values of two records: arrays and objects of
  different records are different references, an inherited member is the same for all
  records.
\<close>

fun strict_eq :: "jsval \<Rightarrow> jsval \<Rightarrow> bool" where
  "strict_eq Undefined Undefined = True"
| "strict_eq Null Null = True"
| "strict_eq (Bool a) (Bool b) = (a = b)"
| "strict_eq (Num a) (Num b) = (a = b)"
| "strict_eq (Str s) (Str t) = (s = t)"
| "strict_eq _ _ = False"

fun prop_strict_eq :: "reading \<Rightarrow> reading \<Rightarrow> bool" where
  "prop_strict_eq (Value a) (Value b) = strict_eq a b"
| "prop_strict_eq (Member m) (Member n) = (m = n)"
| "prop_strict_eq _ _ = False"

fun prop_primitive :: "reading \<Rightarrow> jsval" where
  "prop_primitive (Value v) = to_primitive v"
| "prop_primitive (Member m) = Str (member_text m)"

text \<open>Strings are ordered by their code units, a proper prefix first.\<close>

fun str_less :: "string \<Rightarrow> string \<Rightarrow> bool" where
  "str_less _ [] = False"
| "str_less [] (_ # _) = True"
| "str_less (a # as) (b # bs) =
     ((of_char a :: nat) < of_char b \<or> (a = b \<and> str_less as bs))"

text \<open>
  \<open>x > y\<close>: two strings are compared as strings, anything else as numbers, and a
  comparison with NaN is false.
\<close>

definition js_gt :: "jsval \<Rightarrow> jsval \<Rightarrow> bool" where
  "js_gt x y =
     (case (to_primitive x, to_primitive y) of
        (Str s, Str t) \<Rightarrow> str_less t s
      | (px, py) \<Rightarrow> num_less (to_number py) (to_number px))"

section \<open>Filtering\<close>

definition reserved :: "string list" where
  "reserved = [''_page'', ''_limit'', ''_sort'', ''_order'', ''q'']"

text \<open>
  \<open>matches(item, query)\<close>: the loop over the entries of the query, leaving at the
  first entry that differs. An inherited member is a function or an object, so its
  \<open>typeof\<close> is never \<open>string\<close> and it goes to the loose comparison.
\<close>

fun matches :: "jsobject \<Rightarrow> jsobject \<Rightarrow> bool" where
  "matches item [] = True"
| "matches item ((k, v) # rest) =
     (if k \<in> set reserved then matches item rest
      else
        (case read_prop item k of
           Value iv \<Rightarrow>
             if typeof v = ''string'' \<and> typeof iv = ''string'' then
               (if toLowerCase (to_string iv) \<noteq> toLowerCase (to_string v) then False
                else matches item rest)
             else if \<not> loose_eq iv v then False
             else matches item rest
         | Member m \<Rightarrow>
             if \<not> member_loose_eq m v then False
             else matches item rest))"

section \<open>Full-text search\<close>

definition hex_char :: "nat \<Rightarrow> char" where
  "hex_char d = (if d < 10 then char_of (48 + d) else char_of (87 + d))"

text \<open>The escapes of a JSON string literal.\<close>

definition escape_char :: "char \<Rightarrow> string" where
  "escape_char c =
     (let n = (of_char c :: nat) in
      if c = CHR 0x22 then [CHR 0x5C, CHR 0x22]
      else if c = CHR 0x5C then [CHR 0x5C, CHR 0x5C]
      else if n = 8 then [CHR 0x5C, CHR ''b'']
      else if n = 9 then [CHR 0x5C, CHR ''t'']
      else if n = 10 then [CHR 0x5C, CHR ''n'']
      else if n = 12 then [CHR 0x5C, CHR ''f'']
      else if n = 13 then [CHR 0x5C, CHR ''r'']
      else if n < 32 then [CHR 0x5C, CHR ''u'', CHR ''0'', CHR ''0'', hex_char (n div 16), hex_char (n mod 16)]
      else [c])"

definition quote :: "string \<Rightarrow> string" where
  "quote s = CHR 0x22 # concat (map escape_char s) @ [CHR 0x22]"

text \<open>
  \<open>JSON.stringify\<close>: no white space, fields in enumeration order; an undefined
  field is left out, an undefined array element is written \<open>null\<close>.
\<close>

fun json_text :: "jsval \<Rightarrow> string"
  and json_elems :: "jsval list \<Rightarrow> string list"
  and json_fields :: "(string \<times> jsval) list \<Rightarrow> string list" where
  "json_text Undefined = ''null''"
| "json_text Null = ''null''"
| "json_text (Bool b) = (if b then ''true'' else ''false'')"
| "json_text (Num n) = int_string n"
| "json_text (Str s) = quote s"
| "json_text (Arr xs) = ''['' @ join_comma (json_elems xs) @ '']''"
| "json_text (Obj fs) = ''{'' @ join_comma (json_fields fs) @ ''}''"
| "json_elems [] = []"
| "json_elems (x # xs) = json_text x # json_elems xs"
| "json_fields [] = []"
| "json_fields ((k, v) # fs) =
     (if v = Undefined then json_fields fs
      else (quote k @ '':'' @ json_text v) # json_fields fs)"

definition JSON_stringify :: "jsobject \<Rightarrow> string" where
  "JSON_stringify item = json_text (Obj item)"

fun starts_with :: "string \<Rightarrow> string \<Rightarrow> bool" where
  "starts_with _ [] = True"
| "starts_with [] (_ # _) = False"
| "starts_with (h # hs) (n # ns) = (h = n \<and> starts_with hs ns)"

text \<open>\<open>hay.includes(needle)\<close>: the needle starts at some position of the hay.\<close>

fun str_includes :: "string \<Rightarrow> string \<Rightarrow> bool" where
  "str_includes [] needle = (needle = [])"
| "str_includes (h # hs) needle = (starts_with (h # hs) needle \<or> str_includes hs needle)"

definition fullText :: "jsobject \<Rightarrow> jsval \<Rightarrow> bool" where
  "fullText item needle =
     (let hay = toLowerCase (JSON_stringify item)
      in str_includes hay (toLowerCase (to_string needle)))"

section \<open>Pagination\<close>

text \<open>\<open>xs.slice(start, end)\<close>: negative indices count from the end, all are clamped.\<close>

definition slice :: "'a list \<Rightarrow> int \<Rightarrow> int \<Rightarrow> 'a list" where
  "slice xs s e =
     (let len = int (length xs);
          k = (if s < 0 then max (len + s) 0 else min s len);
          f = (if e < 0 then max (len + e) 0 else min e len)
      in take (nat (f - k)) (drop (nat k) xs))"

definition page_of :: "jsval \<Rightarrow> int" where
  "page_of p = max 1 (toInt p 1)"

definition limit_of :: "jsval \<Rightarrow> nat \<Rightarrow> int" where
  "limit_of l len = max 1 (min 1000 (toInt l (int len)))"

text \<open>
  The pagination step of the list handler: the total (the \<open>X-Total-Count\<close> header) and
  the page.
\<close>

definition paginate :: "'a list \<Rightarrow> jsval \<Rightarrow> jsval \<Rightarrow> nat \<times> 'a list" where
  "paginate items p l =
     (let page = page_of p;
          limit = limit_of l (length items);
          start = (page - 1) * limit;
          end' = start + limit
      in (length items, slice items start end'))"

section \<open>Sorting\<close>

text \<open>
  \<open>Array.prototype.sort\<close> belongs to the engine. It is modelled after V8, the engine
  of Node.js: the initial run is counted (and reversed when it is strictly descending),
  then the remaining elements are placed by binary insertion. This is what V8 does on an
  array of fewer than 64 elements. On a longer array V8 merges several such runs; for a
  consistent comparator that gives the same result, the stably sorted array.
\<close>

fun run_length :: "('a \<Rightarrow> 'a \<Rightarrow> int) \<Rightarrow> bool \<Rightarrow> 'a \<Rightarrow> 'a list \<Rightarrow> nat" where
  "run_length cmp desc prev [] = 0"
| "run_length cmp desc prev (x # xs) =
     (let order = cmp x prev in
      if (if desc then order \<ge> 0 else order < 0) then 0
      else Suc (run_length cmp desc x xs))"

definition count_and_make_run :: "('a \<Rightarrow> 'a \<Rightarrow> int) \<Rightarrow> 'a list \<Rightarrow> 'a list \<times> 'a list" where
  "count_and_make_run cmp xs =
     (case xs of
        x # y # rest \<Rightarrow>
          (let desc = (cmp y x < 0);
               n = 2 + run_length cmp desc y rest;
               run = take n xs
           in (if desc then rev run else run, drop n xs))
      | _ \<Rightarrow> (xs, []))"

function find_insertion_point :: "('a \<Rightarrow> 'a \<Rightarrow> int) \<Rightarrow> 'a \<Rightarrow> 'a list \<Rightarrow> nat \<Rightarrow> nat \<Rightarrow> nat" where
  "find_insertion_point cmp pivot ps left right =
     (if left < right then
        (let mid = left + (right - left) div 2 in
         if cmp pivot (ps ! mid) < 0 then find_insertion_point cmp pivot ps left mid
         else find_insertion_point cmp pivot ps (mid + 1) right)
      else left)"
  by pat_completeness auto
termination
  by (relation "measure (\<lambda>(cmp, pivot, ps, left, right). right - left)") auto

declare find_insertion_point.simps [simp del]

definition binary_insert :: "('a \<Rightarrow> 'a \<Rightarrow> int) \<Rightarrow> 'a list \<Rightarrow> 'a \<Rightarrow> 'a list" where
  "binary_insert cmp ps pivot =
     (let i = find_insertion_point cmp pivot ps 0 (length ps)
      in take i ps @ pivot # drop i ps)"

definition array_sort :: "('a \<Rightarrow> 'a \<Rightarrow> int) \<Rightarrow> 'a list \<Rightarrow> 'a list" where
  "array_sort cmp xs =
     (case count_and_make_run cmp xs of
        (run, rest) \<Rightarrow> foldl (binary_insert cmp) run rest)"

datatype error = TypeError

text \<open>The comparator that \<open>sortItems\<close> passes to \<open>sort\<close>.\<close>

definition compare_items :: "int \<Rightarrow> string \<Rightarrow> jsobject \<Rightarrow> jsobject \<Rightarrow> int" where
  "compare_items dir sortKey a b =
     (let va = read_prop a sortKey;
          vb = read_prop b sortKey
      in if prop_strict_eq va vb then 0
         else if js_gt (prop_primitive va) (prop_primitive vb) then dir else - dir)"

text \<open>
  \<open>sortItems(items, sortKey, order)\<close>. A truthy \<open>order\<close> that is no string has no
  \<open>toLowerCase\<close>, and the call throws.
\<close>

definition sortItems :: "jsobject list \<Rightarrow> jsval \<Rightarrow> jsval \<Rightarrow> error + jsobject list" where
  "sortItems items sortKey order =
     (if \<not> truthy sortKey then Inr items
      else
        (case (if truthy order then order else Str ''asc'') of
           Str s \<Rightarrow>
             (let dir = (if toLowerCase s = ''desc'' then - 1 else 1)
              in Inr (array_sort (compare_items dir (to_string sortKey)) items))
         | _ \<Rightarrow> Inl TypeError))"

section \<open>The store and the routes\<close>

type_synonym store = "string \<rightharpoonup> jsobject list"

text \<open>
  A top-level value of the snapshot is an array of records or something else;
  \<open>ensureArrays\<close> replaces whatever is no array by the empty array.
\<close>

datatype snapshot_value = Sequence "jsobject list" | Other jsval

definition ensureArrays :: "(string \<rightharpoonup> snapshot_value) \<Rightarrow> store" where
  "ensureArrays d =
     (\<lambda>k. case d k of
        None \<Rightarrow> None
      | Some (Sequence xs) \<Rightarrow> Some xs
      | Some (Other _) \<Rightarrow> Some [])"

text \<open>
  \<open>db[resource]\<close>. A name that is no collection may still be found on the prototype
  of the store: the read then yields a function (or, for \<open>__proto__\<close>, the prototype
  itself), which is truthy and has none of the array methods.
\<close>

datatype 'a lookup = Own 'a | Inherited | Absent

definition db_get :: "store \<Rightarrow> string \<Rightarrow> jsobject list lookup" where
  "db_get db resource =
     (case db resource of
        Some data \<Rightarrow> Own data
      | None \<Rightarrow> if resource \<in> set object_prototype_keys then Inherited else Absent)"

record response =
  status :: nat
  x_total_count :: "nat option"
  body :: jsval

definition json_response :: "nat \<Rightarrow> jsval \<Rightarrow> response" where
  "json_response code v = \<lparr>status = code, x_total_count = None, body = v\<rparr>"

definition resource_not_found :: response where
  "resource_not_found = json_response 404 (Obj [(''error'', Str ''Resource not found'')])"

definition not_found :: response where
  "not_found = json_response 404 (Obj [(''error'', Str ''Not found'')])"

text \<open>
  \<open>GET /api/:resource\<close>. Its four steps are the filter over the query without the
  reserved keys, the search when \<open>q\<close> is truthy, the sort and the pagination.
\<close>

definition filter_step :: "jsobject list \<Rightarrow> jsobject \<Rightarrow> jsobject list" where
  "filter_step data query =
     (let filters = filter (\<lambda>(k, v). k \<notin> set reserved) query
      in filter (\<lambda>x. matches x filters) data)"

definition search_step :: "jsobject list \<Rightarrow> jsval \<Rightarrow> jsobject list" where
  "search_step items q = (if truthy q then filter (\<lambda>x. fullText x q) items else items)"

definition list_resource :: "store \<Rightarrow> string \<Rightarrow> jsobject \<Rightarrow> error + response" where
  "list_resource db resource query =
     (case db_get db resource of
        Absent \<Rightarrow> Inr resource_not_found
      | Inherited \<Rightarrow> Inl TypeError
      | Own data \<Rightarrow>
          (let items = filter_step data query;
               items = search_step items (get_field query ''q'')
           in case sortItems items (get_field query ''_sort'') (get_field query ''_order'') of
                Inl e \<Rightarrow> Inl e
              | Inr items \<Rightarrow>
                  (case paginate items (get_field query ''_page'') (get_field query ''_limit'') of
                     (n, page) \<Rightarrow>
                       Inr \<lparr>status = 200, x_total_count = Some n,
                            body = Arr (map Obj page)\<rparr>)))"

text \<open>\<open>data.findIndex(p)\<close>, with \<open>None\<close> for -1.\<close>

fun findIndex :: "('a \<Rightarrow> bool) \<Rightarrow> 'a list \<Rightarrow> nat option" where
  "findIndex p [] = None"
| "findIndex p (x # xs) =
     (if p x then Some 0 else map_option Suc (findIndex p xs))"

definition same_id :: "string \<Rightarrow> jsobject \<Rightarrow> bool" where
  "same_id ident x = (to_string (get_field x ''id'') = ident)"

text \<open>\<open>GET /api/:resource/:id\<close>\<close>

definition get_one :: "store \<Rightarrow> string \<Rightarrow> string \<Rightarrow> error + response" where
  "get_one db resource ident =
     (case db_get db resource of
        Absent \<Rightarrow> Inr resource_not_found
      | Inherited \<Rightarrow> Inl TypeError
      | Own data \<Rightarrow>
          (case List.find (same_id ident) data of
             None \<Rightarrow> Inr not_found
           | Some found \<Rightarrow> Inr (json_response 200 (Obj found))))"

text \<open>
  The form of the strings that \<open>randomUUID()\<close> returns: 36 characters, hyphens after
  8, 12, 16 and 20 lower-case hexadecimal digits, version digit 4, variant digit 8 to b.
\<close>

definition is_hex :: "char \<Rightarrow> bool" where
  "is_hex c = (let n = (of_char c :: nat) in (48 \<le> n \<and> n \<le> 57) \<or> (97 \<le> n \<and> n \<le> 102))"

definition is_uuid :: "string \<Rightarrow> bool" where
  "is_uuid u =
     (length u = 36
      \<and> list_all (\<lambda>i. if i \<in> {8, 13, 18, 23} then u ! i = CHR ''-'' else is_hex (u ! i)) [0..<36]
      \<and> u ! 14 = CHR ''4''
      \<and> u ! 19 \<in> {CHR ''8'', CHR ''9'', CHR ''a'', CHR ''b''})"

text \<open>
  The writing routes return the outcome and the store after the request. The request
  body is \<open>None\<close> when the request carried none; \<open>uuid\<close> is what \<open>randomUUID()\<close>
  returns when it is called.
\<close>

definition body_or_empty :: "jsobject option \<Rightarrow> jsobject" where
  "body_or_empty b = (case b of None \<Rightarrow> [] | Some fs \<Rightarrow> fs)"

text \<open>\<open>POST /api/:resource\<close>\<close>

definition create :: "string \<Rightarrow> store \<Rightarrow> string \<Rightarrow> jsobject option \<Rightarrow> (error + response) \<times> store" where
  "create uuid db resource req_body =
     (case db_get db resource of
        Absent \<Rightarrow> (Inr resource_not_found, db)
      | Inherited \<Rightarrow> (Inl TypeError, db)
      | Own data \<Rightarrow>
          (let body0 = body_or_empty req_body;
               body1 = (if \<not> has_field body0 ''id'' then set_field body0 ''id'' (Str uuid) else body0)
           in (Inr (json_response 201 (Obj body1)), db(resource \<mapsto> data @ [body1]))))"

text \<open>\<open>PATCH /api/:resource/:id\<close>\<close>

definition merge :: "store \<Rightarrow> string \<Rightarrow> string \<Rightarrow> jsobject option \<Rightarrow> (error + response) \<times> store" where
  "merge db resource ident req_body =
     (case db_get db resource of
        Absent \<Rightarrow> (Inr resource_not_found, db)
      | Inherited \<Rightarrow> (Inl TypeError, db)
      | Own data \<Rightarrow>
          (case findIndex (same_id ident) data of
             None \<Rightarrow> (Inr not_found, db)
           | Some idx \<Rightarrow>
               (let merged = set_field (spread (spread [] (data ! idx)) (body_or_empty req_body))
                               ''id'' (get_field (data ! idx) ''id'')
                in (Inr (json_response 200 (Obj merged)), db(resource \<mapsto> data[idx := merged])))))"

text \<open>\<open>PUT /api/:resource/:id\<close>\<close>

definition replace :: "store \<Rightarrow> string \<Rightarrow> string \<Rightarrow> jsobject option \<Rightarrow> (error + response) \<times> store" where
  "replace db resource ident req_body =
     (case db_get db resource of
        Absent \<Rightarrow> (Inr resource_not_found, db)
      | Inherited \<Rightarrow> (Inl TypeError, db)
      | Own data \<Rightarrow>
          (case findIndex (same_id ident) data of
             None \<Rightarrow> (Inr not_found, db)
           | Some idx \<Rightarrow>
               (let next = set_field (spread [] (body_or_empty req_body))
                             ''id'' (get_field (data ! idx) ''id'')
                in (Inr (json_response 200 (Obj next)), db(resource \<mapsto> data[idx := next])))))"

text \<open>\<open>DELETE /api/:resource/:id\<close>\<close>

definition delete :: "store \<Rightarrow> string \<Rightarrow> string \<Rightarrow> (error + response) \<times> store" where
  "delete db resource ident =
     (case db_get db resource of
        Absent \<Rightarrow> (Inr resource_not_found, db)
      | Inherited \<Rightarrow> (Inl TypeError, db)
      | Own data \<Rightarrow>
          (case findIndex (same_id ident) data of
             None \<Rightarrow> (Inr not_found, db)
           | Some idx \<Rightarrow>
               (let removed = data ! idx
                in (Inr (json_response 200 (Obj removed)),
                    db(resource \<mapsto> take idx data @ drop (Suc idx) data)))))"

section \<open>The rules the routes are measured against\<close>

text \<open>
  The rule for one filter key, in the words of the specification: two strings match
  when they are equal without regard to case, any other pair when it is loosely equal.
\<close>

definition spec_key_match :: "jsval \<Rightarrow> jsval \<Rightarrow> bool" where
  "spec_key_match iv v =
     (case (iv, v) of
        (Str t, Str s) \<Rightarrow> toLowerCase t = toLowerCase s
      | _ \<Rightarrow> loose_eq iv v)"

text \<open>
  The rule applied to what the read of the key yields: the value of the field, or the
  inherited member, which is no string and is compared loosely.
\<close>

definition spec_field_match :: "jsobject \<Rightarrow> string \<Rightarrow> jsval \<Rightarrow> bool" where
  "spec_field_match item k v =
     (case read_prop item k of
        Value iv \<Rightarrow> spec_key_match iv v
      | Member m \<Rightarrow> member_loose_eq m v)"

text \<open>A record passes a query when every key outside the reserved ones matches.\<close>

definition spec_passes :: "jsobject \<Rightarrow> jsobject \<Rightarrow> bool" where
  "spec_passes item query =
     (\<forall>(k, v) \<in> set query. k \<notin> set reserved \<longrightarrow> spec_field_match item k v)"

text \<open>A value that the query parser can deliver for a parameter that is present.\<close>

definition query_value :: "jsval \<Rightarrow> bool" where
  "query_value v = (typeof v = ''string'' \<or> is_object v)"

text \<open>
  The natural order of sort-key values: numbers by value, strings by code units. Values
  of other or of different types are not ordered.
\<close>

definition sort_key_le :: "jsval \<Rightarrow> jsval \<Rightarrow> bool" where
  "sort_key_le a b =
     (case (a, b) of
        (Num m, Num n) \<Rightarrow> m \<le> n
      | (Str s, Str t) \<Rightarrow> \<not> str_less t s
      | _ \<Rightarrow> False)"

text \<open>The records all hold a number under the key, or all hold a string.\<close>

definition comparable_keys :: "jsobject list \<Rightarrow> string \<Rightarrow> bool" where
  "comparable_keys items k =
     (list_all (\<lambda>x. typeof (get_field x k) = ''number'') items
      \<or> list_all (\<lambda>x. typeof (get_field x k) = ''string'') items)"

text \<open>The order is descending: \<open>_order\<close> is a string equal to \<open>desc\<close> up to case.\<close>

definition descending :: "jsval \<Rightarrow> bool" where
  "descending order = (typeof order = ''string'' \<and> toLowerCase (to_string order) = ''desc'')"

text \<open>The number, or the string, that a record holds under a key.\<close>

definition num_key :: "string \<Rightarrow> jsobject \<Rightarrow> int" where
  "num_key k x = (case get_field x k of Num n \<Rightarrow> n | _ \<Rightarrow> 0)"

definition str_key :: "string \<Rightarrow> jsobject \<Rightarrow> string" where
  "str_key k x = (case get_field x k of Str s \<Rightarrow> s | _ \<Rightarrow> [])"

text \<open>
  A comparator is consistent on a set with a total preorder when it is negative exactly
  on the pairs in strict order.
\<close>

definition consistent :: "('a \<Rightarrow> 'a \<Rightarrow> int) \<Rightarrow> ('a \<Rightarrow> 'a \<Rightarrow> bool) \<Rightarrow> 'a set \<Rightarrow> bool" where
  "consistent cmp le S =
     ((\<forall>a b. le a b \<or> le b a) \<and> (\<forall>a b c. le a b \<longrightarrow> le b c \<longrightarrow> le a c)
      \<and> (\<forall>a\<in>S. \<forall>b\<in>S. cmp a b < 0 \<longleftrightarrow> \<not> le b a))"

section \<open>Example data\<close>

text \<open>The collection \<open>books\<close> of the scenarios.\<close>

definition dune :: jsobject where
  "dune = [(''id'', Str ''1''), (''title'', Str ''Dune''), (''year'', Num 1965)]"

definition foundation :: jsobject where
  "foundation = [(''id'', Str ''2''), (''title'', Str ''Foundation''), (''year'', Num 1951)]"

definition books_db :: store where
  "books_db = [''books'' \<mapsto> [dune, foundation]]"

text \<open>Players with a rank; one of them has none.\<close>

definition alice :: jsobject where
  "alice = [(''id'', Str ''a''), (''rank'', Num 3)]"

definition bob :: jsobject where
  "bob = [(''id'', Str ''b''), (''rank'', Num 1)]"

definition carol :: jsobject where
  "carol = [(''id'', Str ''c''), (''rank'', Num 3)]"

definition mallory :: jsobject where
  "mallory = [(''id'', Str ''m'')]"

text \<open>A record whose id is a UUID, and a store that holds it.\<close>

definition ticket_id :: string where
  "ticket_id = ''3b241101-e2bb-4255-8caf-4136c566a962''"

definition ticket :: jsobject where
  "ticket = [(''id'', Str ticket_id), (''title'', Str ''Old'')]"

definition tickets_db :: store where
  "tickets_db = [''tickets'' \<mapsto> [ticket]]"

section \<open>Properties of the engine's sort\<close>

lemma mset_take_drop: "mset (take n xs) + mset (drop n xs) = mset xs"
  by (metis append_take_drop_id mset_append)

lemma mset_binary_insert: "mset (binary_insert cmp ps pivot) = add_mset pivot (mset ps)"
  by (simp add: binary_insert_def Let_def mset_take_drop)

lemma mset_foldl_binary_insert:
  "mset (foldl (binary_insert cmp) run rest) = mset run + mset rest"
  by (induction rest arbitrary: run) (simp_all add: mset_binary_insert)

lemma count_and_make_run_cases:
  "count_and_make_run cmp xs = (run, rest) \<Longrightarrow>
     \<exists>n. (run = take n xs \<or> run = rev (take n xs)) \<and> rest = drop n xs"
proof (cases xs)
  case Nil
  assume "count_and_make_run cmp xs = (run, rest)"
  with Nil show ?thesis by (simp add: count_and_make_run_def)
next
  case (Cons x ys)
  assume r: "count_and_make_run cmp xs = (run, rest)"
  show ?thesis
  proof (cases ys)
    case Nil
    with Cons r have "run = take 1 xs \<and> rest = drop 1 xs"
      by (auto simp: count_and_make_run_def)
    then show ?thesis by blast
  next
    case (Cons y zs)
    define n where "n = 2 + run_length cmp (cmp y x < 0) y zs"
    from r \<open>xs = x # ys\<close> Cons
    have "(run = take n xs \<or> run = rev (take n xs)) \<and> rest = drop n xs"
      by (simp add: count_and_make_run_def Let_def n_def split: if_splits)
    then show ?thesis by blast
  qed
qed

lemma mset_count_and_make_run:
  "count_and_make_run cmp xs = (run, rest) \<Longrightarrow> mset run + mset rest = mset xs"
  using count_and_make_run_cases [of cmp xs run rest]
  by (metis mset_rev mset_take_drop)

lemma mset_array_sort: "mset (array_sort cmp xs) = mset xs"
  by (cases "count_and_make_run cmp xs")
     (simp add: array_sort_def mset_foldl_binary_insert mset_count_and_make_run)

lemma length_array_sort: "length (array_sort cmp xs) = length xs"
  by (metis mset_array_sort size_mset)

lemma sortItems_mset: "sortItems items k ord = Inr ys \<Longrightarrow> mset ys = mset items"
  by (auto simp: sortItems_def Let_def mset_array_sort split: if_splits jsval.splits)

section \<open>The pagination window\<close>

lemma page_of_ge: "1 \<le> page_of p"
  by (simp add: page_of_def)

lemma limit_of_range: "1 \<le> limit_of l n \<and> limit_of l n \<le> 1000"
  by (simp add: limit_of_def)

lemma slice_window:
  "0 \<le> s \<Longrightarrow> 0 \<le> n \<Longrightarrow> slice xs s (s + n) = take (nat n) (drop (nat s) xs)"
  by (auto simp: slice_def Let_def min_def take_all_iff)


lemma paginate_eq:
  "paginate items p l =
     (length items,
      take (nat (limit_of l (length items)))
        (drop (nat ((page_of p - 1) * limit_of l (length items))) items))"
proof -
  have "0 \<le> (page_of p - 1) * limit_of l (length items)"
    using page_of_ge [of p] limit_of_range [of l "length items"] by simp
  moreover have "0 \<le> limit_of l (length items)"
    using limit_of_range [of l "length items"] by simp
  ultimately show ?thesis
    by (simp add: paginate_def Let_def slice_window)
qed

lemma toInt_default: "parseInt (to_string v) = None \<Longrightarrow> toInt v d = d"
  by (simp add: toInt_def)

lemma list_resource_Own:
  assumes "db_get db r = Own data" and "list_resource db r query = Inr resp"
  shows "\<exists>sorted.
           sortItems (search_step (filter_step data query) (get_field query ''q''))
             (get_field query ''_sort'') (get_field query ''_order'') = Inr sorted
         \<and> status resp = 200
         \<and> x_total_count resp = Some (length sorted)
         \<and> body resp = Arr (map Obj
               (snd (paginate sorted (get_field query ''_page'') (get_field query ''_limit''))))"
proof -
  have "fst (paginate xs a b) = length xs" for xs :: "jsobject list" and a b
    by (simp add: paginate_def Let_def)
  then have "paginate xs a b = (n, pg) \<Longrightarrow> n = length xs \<and> pg = snd (paginate xs a b)"
    for xs :: "jsobject list" and a b n pg
    by (metis fst_conv snd_conv)
  with assms show ?thesis
    by (auto simp: list_resource_def Let_def split: sum.splits prod.splits)
qed

text \<open>
  C4. For every \<open>_page\<close> and \<open>_limit\<close>, the pagination step returns the total, which is
  the length of the sequence it is given, and exactly the window that starts at
  \<open>(page - 1) * limit\<close> and holds \<open>limit\<close> records. The page is the parsed \<open>_page\<close>, at
  least 1 and 1 when nothing parses; the limit is the parsed \<open>_limit\<close>, the full length
  when nothing parses, clamped to 1..1000. A window that starts at or after the end is
  the empty sequence. In the list route the total reported is the length of the
  sequence after the filter and the search.
\<close>

theorem pagination_window:
  "(let page = page_of p; limit = limit_of l (length items) in
      paginate items p l =
        (length items, take (nat limit) (drop (nat ((page - 1) * limit)) items))
      \<and> page = max 1 (toInt p 1) \<and> 1 \<le> page
      \<and> limit = max 1 (min 1000 (toInt l (int (length items)))) \<and> 1 \<le> limit \<and> limit \<le> 1000
      \<and> (parseInt (to_string p) = None \<longrightarrow> toInt p 1 = 1)
      \<and> (parseInt (to_string l) = None \<longrightarrow> toInt l (int (length items)) = int (length items))
      \<and> (int (length items) \<le> (page - 1) * limit \<longrightarrow> snd (paginate items p l) = []))
   \<and> (db_get db r = Own data \<and> list_resource db r query = Inr resp \<longrightarrow>
        x_total_count resp =
          Some (length (search_step (filter_step data query) (get_field query ''q''))))"
proof -
  define page where "page = page_of p"
  define limit where "limit = limit_of l (length items)"
  have w: "paginate items p l =
        (length items, take (nat limit) (drop (nat ((page - 1) * limit)) items))"
    by (simp add: paginate_eq page_def limit_def)
  have pg: "page = max 1 (toInt p 1)" "1 \<le> page"
    by (simp_all add: page_def page_of_def)
  have lm: "limit = max 1 (min 1000 (toInt l (int (length items))))" "1 \<le> limit" "limit \<le> 1000"
    by (simp_all add: limit_def limit_of_def)
  have dp: "parseInt (to_string p) = None \<longrightarrow> toInt p 1 = 1"
    by (simp add: toInt_default)
  have dl: "parseInt (to_string l) = None \<longrightarrow> toInt l (int (length items)) = int (length items)"
    by (simp add: toInt_default)
  have out: "int (length items) \<le> (page - 1) * limit \<longrightarrow> snd (paginate items p l) = []"
    by (simp add: w)
  have tot: "db_get db r = Own data \<and> list_resource db r query = Inr resp \<longrightarrow>
        x_total_count resp =
          Some (length (search_step (filter_step data query) (get_field query ''q'')))"
  proof
    assume h: "db_get db r = Own data \<and> list_resource db r query = Inr resp"
    from list_resource_Own [of db r data query resp] h
    obtain sorted where
      "sortItems (search_step (filter_step data query) (get_field query ''q''))
         (get_field query ''_sort'') (get_field query ''_order'') = Inr sorted"
      and "x_total_count resp = Some (length sorted)"
      by blast
    then show "x_total_count resp =
          Some (length (search_step (filter_step data query) (get_field query ''q'')))"
      by (metis sortItems_mset size_mset)
  qed
  from w pg lm dp dl out tot show ?thesis
    unfolding Let_def page_def limit_def by blast
qed

theorem pagination_window_witness:
  "parseInt (to_string (Str ''abc'')) = None \<and> toInt (Str ''abc'') 1 = 1
   \<and> parseInt (to_string Undefined) = None \<and> toInt Undefined (int (length [10, 20, 30 :: nat])) = int (length [10, 20, 30 :: nat])
   \<and> int (length [10, 20, 30 :: nat]) \<le> (page_of (Str ''7'') - 1) * limit_of (Str ''2'') (length [10, 20, 30 :: nat])
   \<and> snd (paginate [10, 20, 30 :: nat] (Str ''7'') (Str ''2'')) = []
   \<and> db_get [''books'' \<mapsto> [[(''id'', Str ''1'')], [(''id'', Str ''2'')]]] ''books''
        = Own [[(''id'', Str ''1'')], [(''id'', Str ''2'')]]
   \<and> list_resource [''books'' \<mapsto> [[(''id'', Str ''1'')], [(''id'', Str ''2'')]]] ''books''
          [(''_page'', Str ''2''), (''_limit'', Str ''1'')]
        = Inr \<lparr>status = 200, x_total_count = Some 2, body = Arr [Obj [(''id'', Str ''2'')]]\<rparr>
   \<and> x_total_count \<lparr>status = 200, x_total_count = Some 2, body = Arr [Obj [(''id'', Str ''2'')]]\<rparr>
        = Some (length (search_step (filter_step [[(''id'', Str ''1'')], [(''id'', Str ''2'')]]
              [(''_page'', Str ''2''), (''_limit'', Str ''1'')])
              (get_field [(''_page'', Str ''2''), (''_limit'', Str ''1'')] ''q'')))"
proof -
  have p: "parseInt (to_string (Str ''abc'')) = None" "parseInt (to_string Undefined) = None"
    by code_simp+
  have o: "int (length [10, 20, 30 :: nat]) \<le> (page_of (Str ''7'') - 1) * limit_of (Str ''2'') (length [10, 20, 30 :: nat])"
    by code_simp
  have d: "db_get [''books'' \<mapsto> [[(''id'', Str ''1'')], [(''id'', Str ''2'')]]] ''books''
        = Own [[(''id'', Str ''1'')], [(''id'', Str ''2'')]]"
    by code_simp
  have l: "list_resource [''books'' \<mapsto> [[(''id'', Str ''1'')], [(''id'', Str ''2'')]]] ''books''
          [(''_page'', Str ''2''), (''_limit'', Str ''1'')]
        = Inr \<lparr>status = 200, x_total_count = Some 2, body = Arr [Obj [(''id'', Str ''2'')]]\<rparr>"
    by code_simp
  from p o d l
    pagination_window [of "Str ''abc''" Undefined "[10, 20, 30 :: nat]"]
    pagination_window [of "Str ''7''" "Str ''2''" "[10, 20, 30 :: nat]"
      "[''books'' \<mapsto> [[(''id'', Str ''1'')], [(''id'', Str ''2'')]]]" "''books''"
      "[[(''id'', Str ''1'')], [(''id'', Str ''2'')]]" "[(''_page'', Str ''2''), (''_limit'', Str ''1'')]"
      "\<lparr>status = 200, x_total_count = Some 2, body = Arr [Obj [(''id'', Str ''2'')]]\<rparr>"]
  show ?thesis
    unfolding Let_def by blast
qed

section \<open>Listing\<close>

lemma db_get_Own: "db r = Some data \<Longrightarrow> db_get db r = Own data"
  by (simp add: db_get_def)

lemma db_get_Inherited:
  "db r = None \<Longrightarrow> r \<in> set object_prototype_keys \<Longrightarrow> db_get db r = Inherited"
  by (simp add: db_get_def)

lemma db_get_Absent:
  "db r = None \<Longrightarrow> r \<notin> set object_prototype_keys \<Longrightarrow> db_get db r = Absent"
  by (simp add: db_get_def)

lemma parseInt_undefined: "parseInt ''undefined'' = None"
  by code_simp

lemma toInt_undefined: "toInt Undefined d = d"
  by (simp add: toInt_def parseInt_undefined)

lemma get_field_Nil: "get_field [] k = Undefined"
  by (simp add: get_field_def)

lemma filter_step_Nil: "filter_step data [] = data"
  by (simp add: filter_step_def)

lemma paginate_no_parameters: "paginate items Undefined Undefined = (length items, take 1000 items)"
proof -
  have p: "page_of Undefined = 1"
    by (simp add: page_of_def toInt_undefined)
  have l: "limit_of Undefined (length items) = max 1 (min 1000 (int (length items)))"
    by (simp add: limit_of_def toInt_undefined)
  have "take (nat (max 1 (min 1000 (int (length items))))) items = take 1000 items"
    by (cases "length items \<le> 1000") (auto simp: min_def max_def)
  then show ?thesis
    by (simp add: paginate_eq p l)
qed

text \<open>
  C1, as amended. For every collection present in the store, the list route called
  with no query parameter answers 200 with the total equal to the length of the
  collection and with the first 1000 records in insertion order: the whole collection
  when it holds at most 1000 records.
\<close>

theorem list_no_parameters:
  "db r = Some data \<Longrightarrow>
     list_resource db r [] =
       Inr \<lparr>status = 200, x_total_count = Some (length data), body = Arr (map Obj (take 1000 data))\<rparr>
     \<and> (length data \<le> 1000 \<longrightarrow> take 1000 data = data)"
  by (simp add: list_resource_def db_get_Own filter_step_Nil get_field_Nil search_step_def
      sortItems_def paginate_no_parameters)

theorem list_no_parameters_witness:
  "[''books'' \<mapsto> [[(''id'', Str ''1'')], [(''id'', Str ''2'')]]] ''books''
     = Some [[(''id'', Str ''1'')], [(''id'', Str ''2'')]]
   \<and> length [[(''id'', Str ''1'')], [(''id'', Str ''2'')]] \<le> 1000
   \<and> list_resource [''books'' \<mapsto> [[(''id'', Str ''1'')], [(''id'', Str ''2'')]]] ''books'' []
     = Inr \<lparr>status = 200, x_total_count = Some 2,
            body = Arr [Obj [(''id'', Str ''1'')], Obj [(''id'', Str ''2'')]]\<rparr>"
  using list_no_parameters [of "[''books'' \<mapsto> [[(''id'', Str ''1'')], [(''id'', Str ''2'')]]]"
      "''books''" "[[(''id'', Str ''1'')], [(''id'', Str ''2'')]]"]
  by simp

text \<open>
  As stated for every collection, C1 fails: of 1001 records the route returns 1000,
  because the default limit, the full length, is clamped to 1000 like any other.
\<close>

theorem list_no_parameters_counterexample:
  "list_resource [''logs'' \<mapsto> replicate 1001 [(''level'', Str ''info'')]] ''logs'' []
     = Inr \<lparr>status = 200, x_total_count = Some 1001,
            body = Arr (map Obj (replicate 1000 [(''level'', Str ''info'')]))\<rparr>
   \<and> length (replicate 1000 [(''level'', Str ''info'')])
       < length (replicate 1001 [(''level'', Str ''info'')])"
proof -
  have "list_resource [''logs'' \<mapsto> replicate 1001 [(''level'', Str ''info'')]] ''logs'' []
     = Inr \<lparr>status = 200, x_total_count = Some (length (replicate 1001 [(''level'', Str ''info'')])),
        body = Arr (map Obj (take 1000 (replicate 1001 [(''level'', Str ''info'')])))\<rparr>"
    by (simp add: list_resource_def db_get_def filter_step_Nil get_field_Nil search_step_def
      sortItems_def paginate_no_parameters)
  then show ?thesis by simp
qed

section \<open>Unknown resources\<close>

lemma absent_resource_not_found:
  assumes "db r = None" and "r \<notin> set object_prototype_keys"
  shows "list_resource db r q = Inr resource_not_found"
    and "get_one db r i = Inr resource_not_found"
    and "create u db r b = (Inr resource_not_found, db)"
    and "replace db r i b = (Inr resource_not_found, db)"
    and "merge db r i b = (Inr resource_not_found, db)"
    and "delete db r i = (Inr resource_not_found, db)"
  using assms
  by (simp_all add: db_get_Absent list_resource_def get_one_def create_def replace_def
      merge_def delete_def)

lemma normalized_collection_accepts_writes:
  assumes "d r = Some (Other v)"
  shows "ensureArrays d r = Some []"
    and "create u (ensureArrays d) r (Some b) =
           (Inr (json_response 201 (Obj (if has_field b ''id'' then b else set_field b ''id'' (Str u)))),
            (ensureArrays d)(r \<mapsto> [if has_field b ''id'' then b else set_field b ''id'' (Str u)]))"
proof -
  show e: "ensureArrays d r = Some []"
    using assms by (simp add: ensureArrays_def)
  show "create u (ensureArrays d) r (Some b) =
           (Inr (json_response 201 (Obj (if has_field b ''id'' then b else set_field b ''id'' (Str u)))),
            (ensureArrays d)(r \<mapsto> [if has_field b ''id'' then b else set_field b ''id'' (Str u)]))"
    using db_get_Own [of "ensureArrays d" r "[]"] e
    by (simp add: create_def body_or_empty_def Let_def)
qed

text \<open>
  C7 fails on the code. A resource name that is no collection but names a member of
  \<open>Object.prototype\<close> passes the test \<open>if (!data)\<close>, and every route then calls an
  array method on a value that has none: the request ends in a \<open>TypeError\<close>, not in
  the "Resource not found" answer. The store is left as it was.
\<close>

theorem inherited_name_throws:
  "db r = None \<Longrightarrow> r \<in> set object_prototype_keys \<Longrightarrow>
     list_resource db r q = Inl TypeError
     \<and> get_one db r i = Inl TypeError
     \<and> create u db r b = (Inl TypeError, db)
     \<and> replace db r i b = (Inl TypeError, db)
     \<and> merge db r i b = (Inl TypeError, db)
     \<and> delete db r i = (Inl TypeError, db)"
  by (simp add: db_get_Inherited list_resource_def get_one_def create_def replace_def
      merge_def delete_def)

theorem inherited_name_throws_witness:
  "[''books'' \<mapsto> [[(''id'', Str ''1'')]]] ''constructor'' = None
   \<and> ''constructor'' \<in> set object_prototype_keys
   \<and> list_resource [''books'' \<mapsto> [[(''id'', Str ''1'')]]] ''constructor'' [] = Inl TypeError
   \<and> get_one [''books'' \<mapsto> [[(''id'', Str ''1'')]]] ''constructor'' ''1'' = Inl TypeError
   \<and> fst (create ''u'' [''books'' \<mapsto> [[(''id'', Str ''1'')]]] ''constructor'' None) = Inl TypeError
   \<and> fst (replace [''books'' \<mapsto> [[(''id'', Str ''1'')]]] ''constructor'' ''1'' None) = Inl TypeError
   \<and> fst (merge [''books'' \<mapsto> [[(''id'', Str ''1'')]]] ''constructor'' ''1'' None) = Inl TypeError
   \<and> fst (delete [''books'' \<mapsto> [[(''id'', Str ''1'')]]] ''constructor'' ''1'') = Inl TypeError"
proof -
  have a: "[''books'' \<mapsto> [[(''id'', Str ''1'')]]] ''constructor'' = None"
    by simp
  have b: "''constructor'' \<in> set object_prototype_keys"
    by (simp add: object_prototype_keys_def)
  from inherited_name_throws [where db = "[''books'' \<mapsto> [[(''id'', Str ''1'')]]]"
      and r = "''constructor''" and q = "[]" and i = "''1''" and u = "''u''" and b = None] a b
  show ?thesis by simp
qed

section \<open>Delete\<close>




lemma books_db_books: "books_db ''books'' = Some [dune, foundation]"
  by (simp add: books_db_def)


section \<open>Create\<close>

lemma map_of_set_field: "map_of (set_field fs k v) = (map_of fs)(k \<mapsto> v)"
  by (induction fs) (auto simp: fun_eq_iff)

lemma get_field_set_field:
  "get_field (set_field fs k v) k' = (if k' = k then v else get_field fs k')"
  by (simp add: get_field_def map_of_set_field)

lemma has_field_map_of: "has_field fs k \<longleftrightarrow> map_of fs k \<noteq> None"
  by (simp add: has_field_def map_of_eq_None_iff)

lemma has_field_set_field: "has_field (set_field fs k v) k' \<longleftrightarrow> k' = k \<or> has_field fs k'"
  by (simp add: has_field_map_of map_of_set_field)

text \<open>
  C6, as amended. On an existing collection, create appends one record to the end, so
  that the collection is one longer, and answers with status 201 and the stored record
  as body. The stored record is the body itself when the body has an \<open>id\<close> field;
  otherwise it is the body with the field \<open>id\<close> set to the string that \<open>randomUUID\<close>
  returned, every other field as supplied. That string has the form of a UUID, so it is
  not empty; it is not compared with the ids in use.
\<close>

theorem create_appends:
  "db r = Some data \<Longrightarrow>
     (let body0 = body_or_empty b;
          stored = (if has_field body0 ''id'' then body0 else set_field body0 ''id'' (Str u))
      in create u db r b =
           (Inr \<lparr>status = 201, x_total_count = None, body = Obj stored\<rparr>,
            db(r \<mapsto> data @ [stored]))
         \<and> length (data @ [stored]) = length data + 1
         \<and> (has_field body0 ''id'' \<longrightarrow> stored = body0)
         \<and> (\<not> has_field body0 ''id'' \<longrightarrow>
               get_field stored ''id'' = Str u
               \<and> (\<forall>k. k \<noteq> ''id'' \<longrightarrow> get_field stored k = get_field body0 k)
               \<and> (is_uuid u \<longrightarrow> length u = 36 \<and> get_field stored ''id'' \<noteq> Str [])))"
proof -
  assume d: "db r = Some data"
  define body0 where "body0 = body_or_empty b"
  define stored where
    "stored = (if has_field body0 ''id'' then body0 else set_field body0 ''id'' (Str u))"
  have c: "create u db r b =
           (Inr \<lparr>status = 201, x_total_count = None, body = Obj stored\<rparr>,
            db(r \<mapsto> data @ [stored]))"
    using d db_get_Own [of db r data]
    by (simp add: create_def Let_def json_response_def stored_def body0_def)
  have l: "length (data @ [stored]) = length data + 1"
    by simp
  have k: "has_field body0 ''id'' \<longrightarrow> stored = body0"
    by (simp add: stored_def)
  have g: "get_field stored ''id'' = Str u
      \<and> (\<forall>k. k \<noteq> ''id'' \<longrightarrow> get_field stored k = get_field body0 k)"
    if "\<not> has_field body0 ''id''"
    using that by (simp add: stored_def get_field_set_field)
  have n: "length u = 36 \<and> get_field stored ''id'' \<noteq> Str []"
    if "\<not> has_field body0 ''id''" and "is_uuid u"
  proof -
    from that(2) have "length u = 36" by (simp add: is_uuid_def)
    moreover from this have "u \<noteq> []" by auto
    ultimately show ?thesis
      using g [OF that(1)] by simp
  qed
  from c l k g n show ?thesis
    unfolding Let_def body0_def [symmetric] stored_def [symmetric] by blast
qed

lemma tickets_db_tickets: "tickets_db ''tickets'' = Some [ticket]"
  by (simp add: tickets_db_def)

theorem create_appends_witness:
  "books_db ''books'' = Some [dune, foundation]
   \<and> \<not> has_field (body_or_empty (Some [(''title'', Str ''New'')])) ''id''
   \<and> is_uuid ticket_id
   \<and> fst (create ticket_id books_db ''books'' (Some [(''title'', Str ''New'')]))
       = Inr \<lparr>status = 201, x_total_count = None,
              body = Obj [(''title'', Str ''New''), (''id'', Str ticket_id)]\<rparr>
   \<and> snd (create ticket_id books_db ''books'' (Some [(''title'', Str ''New'')])) ''books''
       = Some [dune, foundation, [(''title'', Str ''New''), (''id'', Str ticket_id)]]
   \<and> length ticket_id = 36
   \<and> has_field (body_or_empty (Some [(''id'', Str ''42''), (''title'', Str ''New'')])) ''id''
   \<and> fst (create ticket_id books_db ''books'' (Some [(''id'', Str ''42''), (''title'', Str ''New'')]))
       = Inr \<lparr>status = 201, x_total_count = None,
              body = Obj [(''id'', Str ''42''), (''title'', Str ''New'')]\<rparr>"
proof -
  have h: "\<not> has_field (body_or_empty (Some [(''title'', Str ''New'')])) ''id''"
     "has_field (body_or_empty (Some [(''id'', Str ''42''), (''title'', Str ''New'')])) ''id''"
    by (simp_all add: has_field_def body_or_empty_def)
  have u: "is_uuid ticket_id"
    by code_simp
  note w1 = create_appends [where db = books_db and r = "''books''" and data = "[dune, foundation]"
      and u = ticket_id and b = "Some [(''title'', Str ''New'')]", unfolded Let_def]
  note w2 = create_appends [where db = books_db and r = "''books''" and data = "[dune, foundation]"
      and u = ticket_id and b = "Some [(''id'', Str ''42''), (''title'', Str ''New'')]", unfolded Let_def]
  from w1 books_db_books h(1)
  have a: "create ticket_id books_db ''books'' (Some [(''title'', Str ''New'')]) =
     (Inr \<lparr>status = 201, x_total_count = None,
            body = Obj [(''title'', Str ''New''), (''id'', Str ticket_id)]\<rparr>,
      books_db(''books'' \<mapsto> [dune, foundation] @ [[(''title'', Str ''New''), (''id'', Str ticket_id)]]))"
    by (simp add: body_or_empty_def)
  from w1 books_db_books h(1) u have l: "length ticket_id = 36"
    by blast
  from w2 books_db_books h(2)
  have b: "create ticket_id books_db ''books'' (Some [(''id'', Str ''42''), (''title'', Str ''New'')]) =
     (Inr \<lparr>status = 201, x_total_count = None,
            body = Obj [(''id'', Str ''42''), (''title'', Str ''New'')]\<rparr>,
      books_db(''books'' \<mapsto> [dune, foundation] @ [[(''id'', Str ''42''), (''title'', Str ''New'')]]))"
    by (simp add: body_or_empty_def)
  from a b l h u books_db_books show ?thesis
    by simp
qed

text \<open>
  As stated, C6 fails: nothing in create looks at the ids in use. When the generator
  returns the UUID that a record of the collection already has, the new record gets
  that id too.
\<close>

theorem create_appends_counterexample:
  "is_uuid ticket_id
   \<and> tickets_db ''tickets'' = Some [ticket]
   \<and> same_id ticket_id ticket
   \<and> \<not> has_field [(''title'', Str ''New'')] ''id''
   \<and> fst (create ticket_id tickets_db ''tickets'' (Some [(''title'', Str ''New'')]))
       = Inr \<lparr>status = 201, x_total_count = None,
              body = Obj [(''title'', Str ''New''), (''id'', Str ticket_id)]\<rparr>
   \<and> snd (create ticket_id tickets_db ''tickets'' (Some [(''title'', Str ''New'')])) ''tickets''
       = Some [ticket, [(''title'', Str ''New''), (''id'', Str ticket_id)]]
   \<and> same_id ticket_id [(''title'', Str ''New''), (''id'', Str ticket_id)]"
  by code_simp

text \<open>
  C10. When the body of a create request has the key \<open>id\<close>, whatever the value under
  it, null included, no identifier is generated: the body is stored and returned as it
  is, so its \<open>id\<close> is still that value.
\<close>

theorem create_keeps_present_id:
  "db r = Some data \<Longrightarrow> map_of body0 ''id'' = Some v \<Longrightarrow>
     create u db r (Some body0) =
       (Inr \<lparr>status = 201, x_total_count = None, body = Obj body0\<rparr>, db(r \<mapsto> data @ [body0]))
     \<and> get_field body0 ''id'' = v"
  by (simp add: create_def db_get_Own Let_def body_or_empty_def has_field_map_of get_field_def
      json_response_def)

theorem create_keeps_present_id_witness:
  "books_db ''books'' = Some [dune, foundation]
   \<and> map_of [(''id'', Null), (''title'', Str ''New'')] ''id'' = Some Null
   \<and> fst (create ''9f1c'' books_db ''books'' (Some [(''id'', Null), (''title'', Str ''New'')]))
       = Inr \<lparr>status = 201, x_total_count = None, body = Obj [(''id'', Null), (''title'', Str ''New'')]\<rparr>
   \<and> snd (create ''9f1c'' books_db ''books'' (Some [(''id'', Null), (''title'', Str ''New'')])) ''books''
       = Some [dune, foundation, [(''id'', Null), (''title'', Str ''New'')]]
   \<and> get_field [(''id'', Null), (''title'', Str ''New'')] ''id'' = Null"
  using create_keeps_present_id [where db = books_db and r = "''books''"
      and data = "[dune, foundation]" and u = "''9f1c''"
      and ?body0.0 = "[(''id'', Null), (''title'', Str ''New'')]" and v = Null] books_db_books
  by simp


section \<open>Replace and merge\<close>







section \<open>Filtering by equality\<close>

lemma typeof_string: "typeof v = ''string'' \<longleftrightarrow> (\<exists>s. v = Str s)"
  by (cases v) simp_all

lemma key_test_eq:
  "(if typeof v = ''string'' \<and> typeof iv = ''string''
    then toLowerCase (to_string iv) = toLowerCase (to_string v) else loose_eq iv v)
   = spec_key_match iv v"
  by (cases iv; cases v) (simp_all add: spec_key_match_def)

lemma matches_step:
  "matches item ((k, v) # rest) =
     ((k \<in> set reserved \<or> spec_field_match item k v) \<and> matches item rest)"
proof (cases "read_prop item k")
  case (Value iv)
  with key_test_eq [of v iv] show ?thesis
    by (auto simp: spec_field_match_def simp del: typeof.simps)
next
  case (Member m)
  then show ?thesis
    by (auto simp: spec_field_match_def)
qed

lemma matches_spec_passes: "matches item query = spec_passes item query"
proof (induction query)
  case Nil
  show ?case by (simp add: spec_passes_def)
next
  case (Cons kv query)
  obtain k v where "kv = (k, v)" by (cases kv)
  with Cons show ?case
    by (auto simp: matches_step spec_passes_def simp del: matches.simps)
qed

lemma spec_passes_without_reserved:
  "spec_passes item (filter (\<lambda>(k, v). k \<notin> set reserved) query) = spec_passes item query"
  by (auto simp: spec_passes_def)









section \<open>Searching\<close>

lemma starts_with_iff: "starts_with hay needle \<longleftrightarrow> (\<exists>post. hay = needle @ post)"
  by (induction hay needle rule: starts_with.induct) auto

lemma str_includes_iff:
  "str_includes hay needle \<longleftrightarrow> (\<exists>pre post. hay = pre @ needle @ post)"
proof (induction hay)
  case Nil
  show ?case by auto
next
  case (Cons h hs)
  have "(\<exists>pre post. h # hs = pre @ needle @ post) \<longleftrightarrow>
        (\<exists>post. h # hs = needle @ post) \<or> (\<exists>pre post. hs = pre @ needle @ post)"
  proof
    assume "\<exists>pre post. h # hs = pre @ needle @ post"
    then obtain pre post where e: "h # hs = pre @ needle @ post" by blast
    show "(\<exists>post. h # hs = needle @ post) \<or> (\<exists>pre post. hs = pre @ needle @ post)"
    proof (cases pre)
      case Nil
      with e show ?thesis by auto
    next
      case (Cons p ps)
      with e have "hs = ps @ needle @ post" by simp
      then show ?thesis by blast
    qed
  next
    assume "(\<exists>post. h # hs = needle @ post) \<or> (\<exists>pre post. hs = pre @ needle @ post)"
    then show "\<exists>pre post. h # hs = pre @ needle @ post"
    proof
      assume "\<exists>post. h # hs = needle @ post"
      then obtain post where "h # hs = [] @ needle @ post" by auto
      then show ?thesis by blast
    next
      assume "\<exists>pre post. hs = pre @ needle @ post"
      then obtain pre post where "h # hs = (h # pre) @ needle @ post" by auto
      then show ?thesis by blast
    qed
  qed
  with Cons show ?case
    by (simp add: starts_with_iff del: starts_with.simps)
qed

lemma fullText_iff:
  "fullText item needle \<longleftrightarrow>
     (\<exists>pre post. toLowerCase (JSON_stringify item) = pre @ toLowerCase (to_string needle) @ post)"
  by (simp add: fullText_def Let_def str_includes_iff)

lemma search_step_query_value:
  "query_value q \<Longrightarrow> search_step items q = filter (\<lambda>x. fullText x q) items"
proof (cases "truthy q")
  case True
  then show ?thesis by (simp add: search_step_def)
next
  case False
  assume "query_value q"
  with False have "q = Str []"
    by (cases q) (simp_all add: query_value_def)
  then have "fullText x q" for x
    by (simp add: fullText_def Let_def toLowerCase_def str_includes_iff)
       (metis append_Nil)
  with False show ?thesis
    by (simp add: search_step_def)
qed

lemma set_slice: "set (slice xs s e) \<subseteq> set xs"
  by (auto simp: slice_def Let_def dest: in_set_takeD in_set_dropD)

lemma set_paginate: "set (snd (paginate xs p l)) \<subseteq> set xs"
  by (simp add: paginate_def Let_def set_slice)

text \<open>
  C9. A record passes the search exactly when the lower-cased needle occurs, as a block
  of consecutive characters, in the lower-cased \<open>JSON.stringify\<close> text of the record.
  For every needle the query can carry, the search step keeps exactly the records of
  its input that pass. In the list route its input is the output of the filter step:
  every record returned is a record of the collection that passes the filter and the
  search, and the total is the number of the filtered records that pass the search.
\<close>

theorem search_narrows_filtered:
  "(fullText item needle \<longleftrightarrow>
      (\<exists>pre post. toLowerCase (JSON_stringify item) = pre @ toLowerCase (to_string needle) @ post))
   \<and> (query_value q \<longrightarrow>
        search_step items q = filter (\<lambda>x. fullText x q) items
        \<and> set (search_step items q) \<subseteq> set items)
   \<and> (db r = Some data \<and> query_value (get_field query ''q'') \<and> list_resource db r query = Inr resp \<longrightarrow>
        (\<exists>page. body resp = Arr (map Obj page)
           \<and> (\<forall>x\<in>set page. x \<in> set data \<and> matches x query \<and> fullText x (get_field query ''q'')))
        \<and> x_total_count resp =
            Some (length (filter (\<lambda>x. fullText x (get_field query ''q'')) (filter_step data query))))"
proof -
  have c: "(\<exists>page. body resp = Arr (map Obj page)
           \<and> (\<forall>x\<in>set page. x \<in> set data \<and> matches x query \<and> fullText x (get_field query ''q'')))
        \<and> x_total_count resp =
            Some (length (filter (\<lambda>x. fullText x (get_field query ''q'')) (filter_step data query)))"
    if d: "db r = Some data" and qv: "query_value (get_field query ''q'')"
      and l: "list_resource db r query = Inr resp"
  proof -
    define sel where "sel = filter (\<lambda>x. fullText x (get_field query ''q'')) (filter_step data query)"
    have s: "search_step (filter_step data query) (get_field query ''q'') = sel"
      by (simp add: sel_def search_step_query_value [OF qv])
    from list_resource_Own [of db r data query resp] db_get_Own [of db r data] d l s
    obtain sorted where
      so: "sortItems sel (get_field query ''_sort'') (get_field query ''_order'') = Inr sorted"
      and tc: "x_total_count resp = Some (length sorted)"
      and bd: "body resp = Arr (map Obj
               (snd (paginate sorted (get_field query ''_page'') (get_field query ''_limit''))))"
      by auto
    from sortItems_mset [OF so] have ms: "mset sorted = mset sel" .
    then have "set sorted = set sel" by (rule mset_eq_setD)
    moreover have "length sorted = length sel" using ms by (metis size_mset)
    moreover have "set sel \<subseteq> {x \<in> set data. matches x query \<and> fullText x (get_field query ''q'')}"
      by (auto simp: sel_def filter_step_def matches_spec_passes spec_passes_without_reserved)
    ultimately have
      "\<forall>x\<in>set (snd (paginate sorted (get_field query ''_page'') (get_field query ''_limit''))).
         x \<in> set data \<and> matches x query \<and> fullText x (get_field query ''q'')"
      and "x_total_count resp = Some (length sel)"
      using tc set_paginate [of sorted "get_field query ''_page''" "get_field query ''_limit''"]
      by auto
    with bd show ?thesis
      unfolding sel_def by blast
  qed
  have b: "query_value q \<longrightarrow>
        search_step items q = filter (\<lambda>x. fullText x q) items
        \<and> set (search_step items q) \<subseteq> set items"
    by (auto simp: search_step_query_value)
  from fullText_iff [of item needle] b c show ?thesis by blast
qed


theorem search_narrows_filtered_witness:
  "books_db ''books'' = Some [dune, foundation]
   \<and> query_value (get_field [(''q'', Str ''dune'')] ''q'')
   \<and> list_resource books_db ''books'' [(''q'', Str ''dune'')]
       = Inr \<lparr>status = 200, x_total_count = Some 1, body = Arr [Obj dune]\<rparr>
   \<and> fullText dune (Str ''dune'') \<and> \<not> fullText foundation (Str ''dune'')
   \<and> search_step [dune, foundation] (Str ''dune'') = filter (\<lambda>x. fullText x (Str ''dune'')) [dune, foundation]
   \<and> x_total_count \<lparr>status = 200, x_total_count = Some 1, body = Arr [Obj dune]\<rparr>
       = Some (length (filter (\<lambda>x. fullText x (get_field [(''q'', Str ''dune'')] ''q''))
                 (filter_step [dune, foundation] [(''q'', Str ''dune'')])))"
proof -
  have q: "query_value (get_field [(''q'', Str ''dune'')] ''q'')" "query_value (Str ''dune'')"
    by code_simp+
  have l: "list_resource books_db ''books'' [(''q'', Str ''dune'')]
       = Inr \<lparr>status = 200, x_total_count = Some 1, body = Arr [Obj dune]\<rparr>"
    by code_simp
  have f: "fullText dune (Str ''dune'')" "\<not> fullText foundation (Str ''dune'')"
    by code_simp+
  note w1 = search_narrows_filtered [where q = "Str ''dune''" and items = "[dune, foundation]"
      and db = books_db and r = "''books''" and data = "[dune, foundation]"
      and query = "[(''q'', Str ''dune'')]"
      and resp = "\<lparr>status = 200, x_total_count = Some 1, body = Arr [Obj dune]\<rparr>"]
  from w1 q have a: "search_step [dune, foundation] (Str ''dune'')
      = filter (\<lambda>x. fullText x (Str ''dune'')) [dune, foundation]"
    by blast
  from w1 q l books_db_books
  have b: "x_total_count \<lparr>status = 200, x_total_count = Some 1, body = Arr [Obj dune]\<rparr>
       = Some (length (filter (\<lambda>x. fullText x (get_field [(''q'', Str ''dune'')] ''q''))
                 (filter_step [dune, foundation] [(''q'', Str ''dune'')])))"
    by blast
  from q l f a b books_db_books show ?thesis
    by blast
qed

section \<open>Sorting with a consistent comparator\<close>

lemma consistentD:
  assumes "consistent cmp le S"
  shows "le a b \<or> le b a"
    and "le a b \<Longrightarrow> le b c \<Longrightarrow> le a c"
    and "a \<in> S \<Longrightarrow> b \<in> S \<Longrightarrow> cmp a b < 0 \<longleftrightarrow> \<not> le b a"
  using assms unfolding consistent_def by blast+

lemma find_insertion_point_correct:
  "consistent cmp le S \<Longrightarrow> sorted_wrt le ps \<Longrightarrow> set ps \<subseteq> S \<Longrightarrow> pivot \<in> S \<Longrightarrow>
   left \<le> right \<Longrightarrow> right \<le> length ps \<Longrightarrow>
   (\<forall>j<left. le (ps ! j) pivot) \<Longrightarrow>
   (\<forall>j. right \<le> j \<and> j < length ps \<longrightarrow> \<not> le (ps ! j) pivot) \<Longrightarrow>
     (let i = find_insertion_point cmp pivot ps left right in
        i \<le> length ps \<and> (\<forall>j<i. le (ps ! j) pivot)
        \<and> (\<forall>j. i \<le> j \<and> j < length ps \<longrightarrow> \<not> le (ps ! j) pivot))"
proof (induction cmp pivot ps left right rule: find_insertion_point.induct)
  case (1 cmp pivot ps left right)
  note c = "1.prems"(1) and srt = "1.prems"(2) and sub = "1.prems"(3) and pS = "1.prems"(4)
  note lr = "1.prems"(5) and rl = "1.prems"(6) and lo = "1.prems"(7) and hi = "1.prems"(8)
  show ?case
  proof (cases "left < right")
    case False
    then have e: "find_insertion_point cmp pivot ps left right = left"
      by (simp add: find_insertion_point.simps [of cmp pivot ps left right])
    from False lr have "left = right" by simp
    with rl lo hi show ?thesis
      unfolding e Let_def by simp
  next
    case True
    define mid where "mid = left + (right - left) div 2"
    from True have m: "left \<le> mid" "mid < right" by (simp_all add: mid_def)
    with rl have ml: "mid < length ps" by simp
    then have mS: "ps ! mid \<in> S" using sub by auto
    show ?thesis
    proof (cases "cmp pivot (ps ! mid) < 0")
      case neg: True
      then have nle: "\<not> le (ps ! mid) pivot"
        using consistentD(3) [OF c pS mS] by simp
      have up: "\<forall>j. mid \<le> j \<and> j < length ps \<longrightarrow> \<not> le (ps ! j) pivot"
      proof (intro allI impI)
        fix j assume j: "mid \<le> j \<and> j < length ps"
        show "\<not> le (ps ! j) pivot"
        proof (cases "j = mid")
          case True with nle show ?thesis by simp
        next
          case False
          with j have "le (ps ! mid) (ps ! j)"
            using srt by (simp add: sorted_wrt_iff_nth_less)
          with nle consistentD(2) [OF c] show ?thesis by blast
        qed
      qed
      from m ml have "mid \<le> length ps" by simp
      from "1.IH"(1) [OF True mid_def neg c srt sub pS m(1) this lo up]
      have "let i = find_insertion_point cmp pivot ps left mid in
            i \<le> length ps \<and> (\<forall>j<i. le (ps ! j) pivot)
            \<and> (\<forall>j. i \<le> j \<and> j < length ps \<longrightarrow> \<not> le (ps ! j) pivot)" .
      with True neg show ?thesis
        by (simp add: find_insertion_point.simps [of cmp pivot ps left right] mid_def Let_def)
    next
      case nonneg: False
      then have lem: "le (ps ! mid) pivot"
        using consistentD(3) [OF c pS mS] by simp
      have dn: "\<forall>j<mid + 1. le (ps ! j) pivot"
      proof (intro allI impI)
        fix j assume j: "j < mid + 1"
        show "le (ps ! j) pivot"
        proof (cases "j = mid")
          case True with lem show ?thesis by simp
        next
          case False
          with j ml have "le (ps ! j) (ps ! mid)"
            using srt by (simp add: sorted_wrt_iff_nth_less)
          with lem consistentD(2) [OF c] show ?thesis by blast
        qed
      qed
      from m have "mid + 1 \<le> right" by simp
      from "1.IH"(2) [OF True mid_def nonneg c srt sub pS this rl dn hi]
      have "let i = find_insertion_point cmp pivot ps (mid + 1) right in
            i \<le> length ps \<and> (\<forall>j<i. le (ps ! j) pivot)
            \<and> (\<forall>j. i \<le> j \<and> j < length ps \<longrightarrow> \<not> le (ps ! j) pivot)" .
      with True nonneg show ?thesis
        by (simp add: find_insertion_point.simps [of cmp pivot ps left right] mid_def Let_def)
    qed
  qed
qed


lemma insertion_point:
  assumes c: "consistent cmp le S" and s: "sorted_wrt le ps" and sub: "set ps \<subseteq> S" and p: "pivot \<in> S"
    and i: "i = find_insertion_point cmp pivot ps 0 (length ps)"
  shows "i \<le> length ps"
    and "\<forall>x\<in>set (take i ps). le x pivot"
    and "\<forall>x\<in>set (drop i ps). \<not> le x pivot"
proof -
  have lo: "\<forall>j<(0::nat). le (ps ! j) pivot" by simp
  have hi: "\<forall>j. length ps \<le> j \<and> j < length ps \<longrightarrow> \<not> le (ps ! j) pivot" by auto
  have "(0::nat) \<le> length ps" "length ps \<le> length ps" by simp_all
  from find_insertion_point_correct [OF c s sub p this lo hi]
  have a: "i \<le> length ps" and b: "\<forall>j<i. le (ps ! j) pivot"
    and d: "\<forall>j. i \<le> j \<and> j < length ps \<longrightarrow> \<not> le (ps ! j) pivot"
    unfolding Let_def i [symmetric] by blast+
  show "i \<le> length ps" by (rule a)
  show "\<forall>x\<in>set (take i ps). le x pivot"
  proof
    fix x assume "x \<in> set (take i ps)"
    then obtain j where "j < i" "j < length ps" "x = ps ! j"
      by (auto simp: in_set_conv_nth)
    with b show "le x pivot" by simp
  qed
  show "\<forall>x\<in>set (drop i ps). \<not> le x pivot"
  proof
    fix x assume "x \<in> set (drop i ps)"
    then obtain j where "j < length ps - i" "x = ps ! (i + j)"
      by (auto simp: in_set_conv_nth)
    with d show "\<not> le x pivot" by simp
  qed
qed

lemma sorted_binary_insert:
  assumes c: "consistent cmp le S" and s: "sorted_wrt le ps" and sub: "set ps \<subseteq> S" and p: "pivot \<in> S"
  shows "sorted_wrt le (binary_insert cmp ps pivot)"
proof -
  define i where "i = find_insertion_point cmp pivot ps 0 (length ps)"
  note ip = insertion_point [OF c s sub p i_def]
  from s have "sorted_wrt le (take i ps @ drop i ps)" by simp
  then have t: "sorted_wrt le (take i ps)" and d: "sorted_wrt le (drop i ps)"
    and td: "\<forall>x\<in>set (take i ps). \<forall>y\<in>set (drop i ps). le x y"
    unfolding sorted_wrt_append by blast+
  from ip(3) consistentD(1) [OF c] have pd: "\<forall>y\<in>set (drop i ps). le pivot y"
    by blast
  have b: "binary_insert cmp ps pivot = take i ps @ pivot # drop i ps"
    by (simp add: binary_insert_def i_def Let_def)
  from t d td pd ip(2) show ?thesis
    unfolding b by (simp add: sorted_wrt_append)
qed

lemma stable_binary_insert:
  assumes c: "consistent cmp le S" and s: "sorted_wrt le ps" and sub: "set ps \<subseteq> S" and p: "pivot \<in> S"
  shows "filter (\<lambda>x. le k x \<and> le x k) (binary_insert cmp ps pivot)
           = filter (\<lambda>x. le k x \<and> le x k) (ps @ [pivot])"
proof -
  define i where "i = find_insertion_point cmp pivot ps 0 (length ps)"
  define P where "P = (\<lambda>x. le k x \<and> le x k)"
  note ip = insertion_point [OF c s sub p i_def]
  have split: "filter P ps = filter P (take i ps) @ filter P (drop i ps)"
    by (metis append_take_drop_id filter_append)
  have b: "binary_insert cmp ps pivot = take i ps @ pivot # drop i ps"
    by (simp add: binary_insert_def i_def Let_def)
  show ?thesis
  proof (cases "P pivot")
    case True
    have "\<not> P y" if "y \<in> set (drop i ps)" for y
    proof
      assume "P y"
      with True have "le y pivot"
        using consistentD(2) [OF c] unfolding P_def by blast
      with ip(3) that show False by blast
    qed
    then have "filter P (drop i ps) = []" by (simp add: filter_empty_conv)
    with True split show ?thesis
      unfolding P_def [symmetric] b by simp
  next
    case False
    with split show ?thesis
      unfolding P_def [symmetric] b by simp
  qed
qed

lemma set_binary_insert: "set (binary_insert cmp ps pivot) = insert pivot (set ps)"
  by (metis mset_binary_insert set_mset_add_mset_insert set_mset_mset)

lemma foldl_binary_insert_sorted_stable:
  "consistent cmp le S \<Longrightarrow> sorted_wrt le run \<Longrightarrow> set run \<subseteq> S \<Longrightarrow> set rest \<subseteq> S \<Longrightarrow>
     sorted_wrt le (foldl (binary_insert cmp) run rest)
     \<and> filter (\<lambda>x. le k x \<and> le x k) (foldl (binary_insert cmp) run rest)
         = filter (\<lambda>x. le k x \<and> le x k) (run @ rest)"
proof (induction rest arbitrary: run)
  case Nil
  then show ?case by simp
next
  case (Cons p rest)
  from Cons.prems have pS: "p \<in> S" and rS: "set rest \<subseteq> S" by simp_all
  have s: "sorted_wrt le (binary_insert cmp run p)"
    by (rule sorted_binary_insert [OF Cons.prems(1,2,3) pS])
  have sub: "set (binary_insert cmp run p) \<subseteq> S"
    using Cons.prems(3) pS by (simp add: set_binary_insert)
  from Cons.IH [OF Cons.prems(1) s sub rS]
  have a: "sorted_wrt le (foldl (binary_insert cmp) (binary_insert cmp run p) rest)"
    and b: "filter (\<lambda>x. le k x \<and> le x k) (foldl (binary_insert cmp) (binary_insert cmp run p) rest)
         = filter (\<lambda>x. le k x \<and> le x k) (binary_insert cmp run p @ rest)"
    by blast+
  from stable_binary_insert [OF Cons.prems(1,2,3) pS, of k]
  have "filter (\<lambda>x. le k x \<and> le x k) (binary_insert cmp run p @ rest)
      = filter (\<lambda>x. le k x \<and> le x k) (run @ p # rest)"
    by simp
  with a b show ?case by simp
qed


lemma run_length_ascending:
  "successively (\<lambda>a b. \<not> cmp b a < 0) (prev # take (run_length cmp False prev xs) xs)"
  by (induction xs arbitrary: prev) (simp_all add: Let_def)

lemma run_length_descending:
  "successively (\<lambda>a b. cmp b a < 0) (prev # take (run_length cmp True prev xs) xs)"
  by (induction xs arbitrary: prev) (simp_all add: Let_def not_le)

lemma filter_rev_strict:
  "sorted_wrt R l \<Longrightarrow> (\<And>x y. P x \<Longrightarrow> P y \<Longrightarrow> \<not> R x y) \<Longrightarrow> filter P (rev l) = filter P l"
proof (induction l)
  case Nil
  show ?case by simp
next
  case (Cons x l)
  from Cons.prems have s: "sorted_wrt R l" and r: "\<forall>y\<in>set l. R x y" by simp_all
  have ih: "filter P (rev l) = filter P l"
    by (rule Cons.IH [OF s Cons.prems(2)])
  show ?case
  proof (cases "P x")
    case True
    with r Cons.prems(2) have "\<forall>y\<in>set l. \<not> P y" by blast
    then have "filter P l = []" by (simp add: filter_empty_conv)
    with True ih show ?thesis by simp
  next
    case False
    with ih show ?thesis by simp
  qed
qed


lemma count_and_make_run_sorted_stable:
  assumes c: "consistent cmp le (set xs)"
    and r: "count_and_make_run cmp xs = (run, rest)"
  shows "sorted_wrt le run"
    and "filter (\<lambda>x. le k x \<and> le x k) (run @ rest) = filter (\<lambda>x. le k x \<and> le x k) xs"
    and "set run \<subseteq> set xs" and "set rest \<subseteq> set xs"
proof -
  define P where "P = (\<lambda>x. le k x \<and> le x k)"
  note tot = consistentD(1) [OF c] and tr = consistentD(2) [OF c] and cm = consistentD(3) [OF c]
  have "sorted_wrt le run \<and> filter P (run @ rest) = filter P xs"
  proof (cases xs)
    case Nil
    with r show ?thesis by (simp add: count_and_make_run_def)
  next
    case (Cons x ys)
    show ?thesis
    proof (cases ys)
      case Nil
      with Cons r show ?thesis by (auto simp: count_and_make_run_def)
    next
      case (Cons y zs)
      note xs = \<open>xs = x # ys\<close> Cons
      show ?thesis
      proof (cases "cmp y x < 0")
        case False
        define l where "l = x # y # take (run_length cmp False y zs) zs"
        from r xs False have run: "run = l" and rest: "rest = drop (run_length cmp False y zs) zs"
          by (simp_all add: count_and_make_run_def Let_def l_def)
        have lx: "l @ rest = xs"
          by (simp add: l_def rest xs)
        then have sub: "set l \<subseteq> set xs" by auto
        from False run_length_ascending [of cmp y zs]
        have "successively (\<lambda>a b. \<not> cmp b a < 0) l"
          by (simp add: l_def)
        then have "successively le l"
          using sub cm by (elim successively_mono) blast
        moreover have "transp le"
          using tr by (auto simp: transp_def)
        ultimately have "sorted_wrt le l"
          by (simp add: successively_conv_sorted_wrt)
        with run lx show ?thesis by simp
      next
        case True
        define l where "l = x # y # take (run_length cmp True y zs) zs"
        from r xs True have run: "run = rev l" and rest: "rest = drop (run_length cmp True y zs) zs"
          by (simp_all add: count_and_make_run_def Let_def l_def)
        have lx: "l @ rest = xs"
          by (simp add: l_def rest xs)
        then have sub: "set l \<subseteq> set xs" by auto
        from True run_length_descending [of cmp y zs]
        have "successively (\<lambda>a b. cmp b a < 0) l"
          by (simp add: l_def)
        then have "successively (\<lambda>a b. \<not> le a b) l"
          using sub cm by (elim successively_mono) blast
        moreover have "transp (\<lambda>a b. \<not> le a b)"
          using tr tot by (auto simp: transp_def) blast
        ultimately have st: "sorted_wrt (\<lambda>a b. \<not> le a b) l"
          by (simp add: successively_conv_sorted_wrt)
        then have "sorted_wrt (\<lambda>a b. le b a) l"
          using tot by (elim sorted_wrt_mono_rel [rotated]) blast
        then have s: "sorted_wrt le (rev l)"
          by (simp add: sorted_wrt_rev)
        have "\<not> (\<not> le a b)" if "P a" "P b" for a b
          using that tr unfolding P_def by blast
        from filter_rev_strict [OF st this] have "filter P (rev l) = filter P l" .
        then have "filter P (rev l @ rest) = filter P (l @ rest)" by simp
        with s run lx show ?thesis by simp
      qed
    qed
  qed
  then show "sorted_wrt le run"
    and "filter (\<lambda>x. le k x \<and> le x k) (run @ rest) = filter (\<lambda>x. le k x \<and> le x k) xs"
    unfolding P_def by simp_all
  from count_and_make_run_cases [OF r]
  show "set run \<subseteq> set xs" and "set rest \<subseteq> set xs"
    by (auto dest: in_set_takeD in_set_dropD)
qed

lemma array_sort_sorted_stable:
  assumes c: "consistent cmp le (set xs)"
  shows "sorted_wrt le (array_sort cmp xs)"
    and "filter (\<lambda>x. le k x \<and> le x k) (array_sort cmp xs) = filter (\<lambda>x. le k x \<and> le x k) xs"
proof -
  obtain run rest where r: "count_and_make_run cmp xs = (run, rest)"
    by (cases "count_and_make_run cmp xs")
  note cr = count_and_make_run_sorted_stable [OF c r]
  from foldl_binary_insert_sorted_stable [OF c cr(1) cr(3) cr(4), of k] cr(2) [of k] r
  show "sorted_wrt le (array_sort cmp xs)"
    and "filter (\<lambda>x. le k x \<and> le x k) (array_sort cmp xs) = filter (\<lambda>x. le k x \<and> le x k) xs"
    by (simp_all add: array_sort_def)
qed

lemma array_sort_by_key:
  fixes f :: "'a \<Rightarrow> 'k::linorder"
  assumes "\<forall>a\<in>set xs. \<forall>b\<in>set xs. cmp a b < 0 \<longleftrightarrow> f a < f b"
  shows "sorted_wrt (\<lambda>a b. f a \<le> f b) (array_sort cmp xs)"
    and "filter (\<lambda>x. f x = c) (array_sort cmp xs) = filter (\<lambda>x. f x = c) xs"
proof -
  have c: "consistent cmp (\<lambda>a b. f a \<le> f b) (set xs)"
    using assms unfolding consistent_def by (auto simp: not_le)
  show "sorted_wrt (\<lambda>a b. f a \<le> f b) (array_sort cmp xs)"
    by (rule array_sort_sorted_stable(1) [OF c])
  show "filter (\<lambda>x. f x = c) (array_sort cmp xs) = filter (\<lambda>x. f x = c) xs"
  proof (cases "\<exists>k\<in>set xs. f k = c")
    case True
    then obtain k where "f k = c" by blast
    then have "(\<lambda>x. f x = c) = (\<lambda>x. f k \<le> f x \<and> f x \<le> f k)"
      by (auto simp: fun_eq_iff)
    then show ?thesis
      using array_sort_sorted_stable(2) [OF c, of k] by simp
  next
    case False
    moreover have "set (array_sort cmp xs) = set xs"
      by (rule mset_eq_setD) (rule mset_array_sort)
    ultimately have "filter (\<lambda>x. f x = c) (array_sort cmp xs) = []" "filter (\<lambda>x. f x = c) xs = []"
      by (auto simp: filter_empty_conv)
    then show ?thesis by simp
  qed
qed

lemma array_sort_by_key_desc:
  fixes f :: "'a \<Rightarrow> 'k::linorder"
  assumes "\<forall>a\<in>set xs. \<forall>b\<in>set xs. cmp a b < 0 \<longleftrightarrow> f b < f a"
  shows "sorted_wrt (\<lambda>a b. f b \<le> f a) (array_sort cmp xs)"
    and "filter (\<lambda>x. f x = c) (array_sort cmp xs) = filter (\<lambda>x. f x = c) xs"
proof -
  have c: "consistent cmp (\<lambda>a b. f b \<le> f a) (set xs)"
    using assms unfolding consistent_def by (auto simp: not_le)
  show "sorted_wrt (\<lambda>a b. f b \<le> f a) (array_sort cmp xs)"
    by (rule array_sort_sorted_stable(1) [OF c])
  show "filter (\<lambda>x. f x = c) (array_sort cmp xs) = filter (\<lambda>x. f x = c) xs"
  proof (cases "\<exists>k\<in>set xs. f k = c")
    case True
    then obtain k where "f k = c" by blast
    then have "(\<lambda>x. f x = c) = (\<lambda>x. f x \<le> f k \<and> f k \<le> f x)"
      by (auto simp: fun_eq_iff)
    then show ?thesis
      using array_sort_sorted_stable(2) [OF c, of k] by simp
  next
    case False
    moreover have "set (array_sort cmp xs) = set xs"
      by (rule mset_eq_setD) (rule mset_array_sort)
    ultimately have "filter (\<lambda>x. f x = c) (array_sort cmp xs) = []" "filter (\<lambda>x. f x = c) xs = []"
      by (auto simp: filter_empty_conv)
    then show ?thesis by simp
  qed
qed

lemma str_less_iff: "str_less s t \<longleftrightarrow> s < t"
  by (induction s t rule: str_less.induct) (simp_all add: less_char_def)

lemma read_prop_defined:
  "get_field a k = v \<Longrightarrow> v \<noteq> Undefined \<Longrightarrow> read_prop a k = Value v"
  by (auto simp: get_field_def read_prop_def split: option.splits)

lemma compare_items_num:
  "get_field a k = Num m \<Longrightarrow> get_field b k = Num n \<Longrightarrow>
     (compare_items 1 k a b < 0 \<longleftrightarrow> m < n) \<and> (compare_items (- 1) k a b < 0 \<longleftrightarrow> n < m)"
proof -
  assume "get_field a k = Num m" and "get_field b k = Num n"
  then have "read_prop a k = Value (Num m)" and "read_prop b k = Value (Num n)"
    by (simp_all add: read_prop_defined)
  then show ?thesis
    by (auto simp: compare_items_def Let_def js_gt_def)
qed

lemma compare_items_str:
  "get_field a k = Str s \<Longrightarrow> get_field b k = Str t \<Longrightarrow>
     (compare_items 1 k a b < 0 \<longleftrightarrow> s < t) \<and> (compare_items (- 1) k a b < 0 \<longleftrightarrow> t < s)"
proof -
  assume "get_field a k = Str s" and "get_field b k = Str t"
  then have "read_prop a k = Value (Str s)" and "read_prop b k = Value (Str t)"
    by (simp_all add: read_prop_defined)
  then show ?thesis
    by (auto simp: compare_items_def Let_def js_gt_def str_less_iff)
qed


lemma sort_items_by:
  fixes f :: "jsobject \<Rightarrow> 'k::linorder" and inj :: "'k \<Rightarrow> jsval"
  assumes key: "\<forall>x\<in>set items. get_field x k = inj (f x)"
    and inj: "\<And>p q. inj p = inj q \<Longrightarrow> p = q"
    and le: "\<And>p q. p \<le> q \<Longrightarrow> sort_key_le (inj p) (inj q)"
    and cmp: "\<And>a b p q. get_field a k = inj p \<Longrightarrow> get_field b k = inj q \<Longrightarrow>
       (compare_items 1 k a b < 0 \<longleftrightarrow> p < q) \<and> (compare_items (- 1) k a b < 0 \<longleftrightarrow> q < p)"
  shows "sorted_wrt (\<lambda>a b. sort_key_le (get_field a k) (get_field b k))
           (array_sort (compare_items 1 k) items)"
    and "sorted_wrt (\<lambda>a b. sort_key_le (get_field b k) (get_field a k))
           (array_sort (compare_items (- 1) k) items)"
    and "filter (\<lambda>x. get_field x k = v) (array_sort (compare_items 1 k) items)
           = filter (\<lambda>x. get_field x k = v) items"
    and "filter (\<lambda>x. get_field x k = v) (array_sort (compare_items (- 1) k) items)
           = filter (\<lambda>x. get_field x k = v) items"
proof -
  have up: "\<forall>a\<in>set items. \<forall>b\<in>set items. compare_items 1 k a b < 0 \<longleftrightarrow> f a < f b"
    using key cmp by blast
  have dn: "\<forall>a\<in>set items. \<forall>b\<in>set items. compare_items (- 1) k a b < 0 \<longleftrightarrow> f b < f a"
    using key cmp by blast
  have st: "set (array_sort c items) = set items" for c :: "jsobject \<Rightarrow> jsobject \<Rightarrow> int"
    by (rule mset_eq_setD) (rule mset_array_sort)
  from array_sort_by_key(1) [of items "compare_items 1 k" f, OF up]
  show "sorted_wrt (\<lambda>a b. sort_key_le (get_field a k) (get_field b k))
           (array_sort (compare_items 1 k) items)"
    using key le by (elim sorted_wrt_mono_rel [rotated]) (simp add: st)
  from array_sort_by_key_desc(1) [of items "compare_items (- 1) k" f, OF dn]
  show "sorted_wrt (\<lambda>a b. sort_key_le (get_field b k) (get_field a k))
           (array_sort (compare_items (- 1) k) items)"
    using key le by (elim sorted_wrt_mono_rel [rotated]) (simp add: st)
  have flt: "filter (\<lambda>x. get_field x k = v) (array_sort c items)
           = filter (\<lambda>x. get_field x k = v) items"
    if e: "\<And>w. filter (\<lambda>x. f x = w) (array_sort c items) = filter (\<lambda>x. f x = w) items"
    for c :: "jsobject \<Rightarrow> jsobject \<Rightarrow> int"
  proof (cases "\<exists>w. v = inj w")
    case True
    then obtain w where w: "v = inj w" by blast
    have "filter (\<lambda>x. get_field x k = v) l = filter (\<lambda>x. f x = w) l" if "set l \<subseteq> set items" for l
      using that key inj w by (intro filter_cong) auto
    with e [of w] st [of c] show ?thesis by simp
  next
    case False
    with key have "\<forall>x\<in>set items. get_field x k \<noteq> v" by metis
    with st [of c] have "filter (\<lambda>x. get_field x k = v) (array_sort c items) = []"
      "filter (\<lambda>x. get_field x k = v) items = []"
      by (simp_all add: filter_empty_conv)
    then show ?thesis by simp
  qed
  show "filter (\<lambda>x. get_field x k = v) (array_sort (compare_items 1 k) items)
           = filter (\<lambda>x. get_field x k = v) items"
    by (rule flt) (rule array_sort_by_key(2) [of items "compare_items 1 k" f, OF up])
  show "filter (\<lambda>x. get_field x k = v) (array_sort (compare_items (- 1) k) items)
           = filter (\<lambda>x. get_field x k = v) items"
    by (rule flt) (rule array_sort_by_key_desc(2) [of items "compare_items (- 1) k" f, OF dn])
qed

lemma comparable_keys_cases:
  assumes "comparable_keys items k"
  shows "(\<forall>x\<in>set items. get_field x k = Num (num_key k x))
       \<or> (\<forall>x\<in>set items. get_field x k = Str (str_key k x))"
proof -
  have n: "typeof v = ''number'' \<Longrightarrow> v = Num (case v of Num n \<Rightarrow> n | _ \<Rightarrow> 0)" for v
    by (cases v) simp_all
  have s: "typeof v = ''string'' \<Longrightarrow> v = Str (case v of Str s \<Rightarrow> s | _ \<Rightarrow> [])" for v
    by (cases v) simp_all
  from assms n s show ?thesis
    unfolding comparable_keys_def list_all_iff num_key_def str_key_def by blast
qed

lemma sort_key_le_num: "p \<le> q \<Longrightarrow> sort_key_le (Num p) (Num q)"
  by (simp add: sort_key_le_def)

lemma sort_key_le_str: "p \<le> q \<Longrightarrow> sort_key_le (Str p) (Str q)"
  by (simp add: sort_key_le_def str_less_iff not_less)

lemma sort_comparable:
  assumes "comparable_keys items k"
  shows "sorted_wrt (\<lambda>a b. sort_key_le (get_field a k) (get_field b k))
           (array_sort (compare_items 1 k) items)"
    and "sorted_wrt (\<lambda>a b. sort_key_le (get_field b k) (get_field a k))
           (array_sort (compare_items (- 1) k) items)"
    and "filter (\<lambda>x. get_field x k = v) (array_sort (compare_items 1 k) items)
           = filter (\<lambda>x. get_field x k = v) items"
    and "filter (\<lambda>x. get_field x k = v) (array_sort (compare_items (- 1) k) items)
           = filter (\<lambda>x. get_field x k = v) items"
  using comparable_keys_cases [OF assms]
    sort_items_by [of items k Num "num_key k", OF _ _ sort_key_le_num compare_items_num]
    sort_items_by [of items k Str "str_key k", OF _ _ sort_key_le_str compare_items_str]
  by blast+


lemma sortItems_direction:
  assumes "truthy sortKey" and "\<not> truthy order \<or> typeof order = ''string''"
  shows "sortItems items sortKey order =
           Inr (array_sort (compare_items (if descending order then - 1 else 1) (to_string sortKey)) items)"
proof (cases "truthy order")
  case False
  have "toLowerCase ''asc'' \<noteq> ''desc''" by code_simp
  moreover from False have "\<not> descending order"
    by (cases order) (simp_all add: descending_def toLowerCase_def)
  ultimately show ?thesis
    using assms(1) False by (simp add: sortItems_def)
next
  case True
  with assms(2) obtain s where "order = Str s"
    by (auto simp: typeof_string)
  with assms(1) True show ?thesis
    by (simp add: sortItems_def descending_def)
qed

text \<open>
  C3, as amended. When a sort key is given, \<open>_order\<close> is absent or a string, and the
  records all hold numbers or all hold strings under the key, the sort step returns a
  rearrangement of its input that is ordered by the key, descending when \<open>_order\<close> is
  \<open>desc\<close> up to case and ascending for every other string or none, and in which the
  records with any one key value stand in the order they had before.
\<close>

theorem sort_is_stable:
  "truthy sortKey \<Longrightarrow> \<not> truthy order \<or> typeof order = ''string'' \<Longrightarrow>
   comparable_keys items (to_string sortKey) \<Longrightarrow>
     (\<exists>ys. sortItems items sortKey order = Inr ys
        \<and> mset ys = mset items
        \<and> (descending order \<longrightarrow>
              sorted_wrt (\<lambda>a b. sort_key_le (get_field b (to_string sortKey))
                                        (get_field a (to_string sortKey))) ys)
        \<and> (\<not> descending order \<longrightarrow>
              sorted_wrt (\<lambda>a b. sort_key_le (get_field a (to_string sortKey))
                                        (get_field b (to_string sortKey))) ys)
        \<and> (\<forall>v. filter (\<lambda>x. get_field x (to_string sortKey) = v) ys
                 = filter (\<lambda>x. get_field x (to_string sortKey) = v) items))"
proof -
  assume t: "truthy sortKey" and o: "\<not> truthy order \<or> typeof order = ''string''"
    and c: "comparable_keys items (to_string sortKey)"
  define k where "k = to_string sortKey"
  define ys where "ys = array_sort (compare_items (if descending order then - 1 else 1) k) items"
  have r: "sortItems items sortKey order = Inr ys"
    unfolding ys_def k_def by (rule sortItems_direction [OF t o])
  have m: "mset ys = mset items"
    by (simp add: ys_def mset_array_sort)
  note sc = sort_comparable [OF c, folded k_def]
  have d: "descending order \<longrightarrow>
      sorted_wrt (\<lambda>a b. sort_key_le (get_field b k) (get_field a k)) ys"
    using sc(2) by (simp add: ys_def)
  have a: "\<not> descending order \<longrightarrow>
      sorted_wrt (\<lambda>a b. sort_key_le (get_field a k) (get_field b k)) ys"
    using sc(1) by (simp add: ys_def)
  have f: "\<forall>v. filter (\<lambda>x. get_field x k = v) ys = filter (\<lambda>x. get_field x k = v) items"
    using sc(3) sc(4) by (simp add: ys_def)
  from r m d a f show ?thesis
    unfolding k_def by blast
qed


theorem sort_is_stable_witness:
  "truthy (Str ''rank'') \<and> typeof (Str ''DESC'') = ''string''
   \<and> comparable_keys [alice, bob, carol] (to_string (Str ''rank''))
   \<and> descending (Str ''DESC'')
   \<and> sortItems [alice, bob, carol] (Str ''rank'') (Str ''DESC'') = Inr [alice, carol, bob]
   \<and> sorted_wrt (\<lambda>a b. sort_key_le (get_field b (to_string (Str ''rank'')))
                                 (get_field a (to_string (Str ''rank'')))) [alice, carol, bob]
   \<and> filter (\<lambda>x. get_field x (to_string (Str ''rank'')) = Num 3) [alice, carol, bob]
       = filter (\<lambda>x. get_field x (to_string (Str ''rank'')) = Num 3) [alice, bob, carol]
   \<and> \<not> descending (Str ''up'')
   \<and> sortItems [alice, bob, carol] (Str ''rank'') (Str ''up'') = Inr [bob, alice, carol]
   \<and> sorted_wrt (\<lambda>a b. sort_key_le (get_field a (to_string (Str ''rank'')))
                                 (get_field b (to_string (Str ''rank'')))) [bob, alice, carol]"
proof -
  have h: "truthy (Str ''rank'')" "typeof (Str ''DESC'') = ''string''"
    "\<not> truthy (Str ''DESC'') \<or> typeof (Str ''DESC'') = ''string''"
    "\<not> truthy (Str ''up'') \<or> typeof (Str ''up'') = ''string''"
    by simp_all
  have c: "comparable_keys [alice, bob, carol] (to_string (Str ''rank''))"
    by code_simp
  have d: "descending (Str ''DESC'')" "\<not> descending (Str ''up'')"
    by code_simp+
  have e: "sortItems [alice, bob, carol] (Str ''rank'') (Str ''DESC'') = Inr [alice, carol, bob]"
    "sortItems [alice, bob, carol] (Str ''rank'') (Str ''up'') = Inr [bob, alice, carol]"
    by code_simp+
  from sort_is_stable [OF h(1) h(3) c] e(1) d(1)
  have a: "sorted_wrt (\<lambda>a b. sort_key_le (get_field b (to_string (Str ''rank'')))
                                 (get_field a (to_string (Str ''rank'')))) [alice, carol, bob]"
    and b: "filter (\<lambda>x. get_field x (to_string (Str ''rank'')) = Num 3) [alice, carol, bob]
       = filter (\<lambda>x. get_field x (to_string (Str ''rank'')) = Num 3) [alice, bob, carol]"
    by auto
  from sort_is_stable [OF h(1) h(4) c] e(2) d(2)
  have u: "sorted_wrt (\<lambda>a b. sort_key_le (get_field a (to_string (Str ''rank'')))
                                 (get_field b (to_string (Str ''rank'')))) [bob, alice, carol]"
    by auto
  from h c d e a b u show ?thesis
    by blast
qed

text \<open>
  As stated for every collection and every \<open>_order\<close>, C3 fails. A record without the
  sort key makes the comparator inconsistent (it answers "less" both ways round), and
  the two records of rank 3 come out in the opposite order. An \<open>_order\<close> given twice
  arrives as an array, on which \<open>toLowerCase\<close> is no function.
\<close>

theorem sort_is_stable_counterexample:
  "get_field alice ''rank'' = get_field carol ''rank''
   \<and> alice \<noteq> carol
   \<and> sortItems [alice, mallory, carol] (Str ''rank'') Undefined = Inr [carol, mallory, alice]
   \<and> sortItems [dune, foundation] (Str ''year'') (Arr [Str ''asc'', Str ''desc'']) = Inl TypeError"
  by code_simp

section \<open>The scenarios of the specification\<close>

lemma scenario_sort_by_year:
  "list_resource books_db ''books'' [(''_sort'', Str ''year''), (''_order'', Str ''asc'')]
     = Inr \<lparr>status = 200, x_total_count = Some 2, body = Arr [Obj foundation, Obj dune]\<rparr>"
  by code_simp

lemma scenario_second_page:
  "list_resource books_db ''books'' [(''_page'', Str ''2''), (''_limit'', Str ''1'')]
     = Inr \<lparr>status = 200, x_total_count = Some 2, body = Arr [Obj foundation]\<rparr>"
  by code_simp

lemma scenario_filter_ignores_case:
  "matches [(''name'', Str ''bob'')] [(''name'', Str ''Bob'')]"
  by code_simp

lemma scenario_ghosts:
  "list_resource books_db ''ghosts'' [] = Inr resource_not_found"
  by code_simp

end
